theory Spec2Isabelle
  imports Main "HOL-Library.Word"
begin

unbundle bit_operations_syntax

section \<open>Keys and byte strings\<close>

text \<open>
  A Go \<^verbatim>\<open>[]byte\<close> is a list of 8-bit words. Where the source tells a nil slice
  from a slice (\<^verbatim>\<open>e.seekKey == nil\<close>, \<^verbatim>\<open>data[offset] != nil\<close>, the nil result
  of \<^verbatim>\<open>prefixPrev\<close>), the model uses an option: \<open>None\<close> is nil.
\<close>

type_synonym byte = "8 word"
type_synonym bytes = "byte list"

text \<open>
  \<^verbatim>\<open>bytes.Compare\<close>: byte-lexicographic order, bytes read unsigned, a proper prefix
  is smaller. The result is -1, 0 or 1.
\<close>

fun bytesCompare :: "bytes \<Rightarrow> bytes \<Rightarrow> int" where
  "bytesCompare [] [] = 0"
| "bytesCompare [] (y # ys) = -1"
| "bytesCompare (x # xs) [] = 1"
| "bytesCompare (x # xs) (y # ys) =
     (if x < y then -1 else if y < x then 1 else bytesCompare xs ys)"

subsection \<open>prefixPrev (executor.go, lines 485-499)\<close>

text \<open>
  The loop \<^verbatim>\<open>for i = len(k) - 1; i >= 0; i--\<close> is a recursion on \<open>i + 1\<close>, so that
  the exit value \<^verbatim>\<open>i == -1\<close> is the argument \<open>0\<close>. \<^verbatim>\<open>buf[i]--\<close> wraps around
  on a byte, as subtraction on \<open>8 word\<close> does. The index \<open>i\<close> is below the length
  of the buffer at every call made by \<open>prefixPrev\<close>.
\<close>

primrec prefixPrev_loop :: "bytes \<Rightarrow> nat \<Rightarrow> bytes option" where
  "prefixPrev_loop buf 0 = None"
| "prefixPrev_loop buf (Suc i) =
     (let buf' = buf[i := buf ! i - 1]
      in if buf' ! i \<noteq> 255 then Some buf' else prefixPrev_loop buf' i)"

definition prefixPrev :: "bytes \<Rightarrow> bytes option" where
  "prefixPrev k = prefixPrev_loop k (length k)"

subsection \<open>Key.PrefixNext and Key.Next of the kv package\<close>

text \<open>
  Modelled from the spec: \<^verbatim>\<open>kv.Key.PrefixNext\<close> and \<^verbatim>\<open>kv.Key.Next\<close> belong to an
  imported package and are not among the sources. The glossary gives both readings of
  the successor: "append a zero byte (or increment trailing bytes, depending on
  key-space convention)". \<open>PrefixNext\<close> is the increment with carry, the mirror image
  of \<open>prefixPrev\<close> (whose comment in the source calls it the "previous version of
  kv.PrefixNext"); a key of \<open>0xFF\<close> bytes only has no such successor and gets a zero
  byte appended. \<open>Next\<close> is the appended zero byte.
\<close>

primrec PrefixNext_loop :: "bytes \<Rightarrow> nat \<Rightarrow> bytes option" where
  "PrefixNext_loop buf 0 = None"
| "PrefixNext_loop buf (Suc i) =
     (let buf' = buf[i := buf ! i + 1]
      in if buf' ! i \<noteq> 0 then Some buf' else PrefixNext_loop buf' i)"

definition PrefixNext :: "bytes \<Rightarrow> bytes" where
  "PrefixNext k = (case PrefixNext_loop k (length k) of Some buf \<Rightarrow> buf | None \<Rightarrow> k @ [0])"

definition Next_key :: "bytes \<Rightarrow> bytes" where
  "Next_key k = k @ [0]"

section \<open>Properties of prefixPrev\<close>

lemma bytesCompare_refl: "bytesCompare k k = 0"
  by (induction k) simp_all

lemma bytesCompare_append_lt:
  "a < b \<Longrightarrow> bytesCompare (xs @ a # ys) (xs @ [b]) = -1"
  by (induction xs) simp_all

lemma prefixPrev_loop_zeros:
  "i \<le> length buf \<Longrightarrow> \<forall>j < i. buf ! j = 0 \<Longrightarrow> prefixPrev_loop buf i = None"
proof (induction i arbitrary: buf)
  case 0
  then show ?case by simp
next
  case (Suc i)
  let ?buf' = "buf[i := buf ! i - 1]"
  from Suc.prems have i: "i < length buf" and z: "buf ! i = 0" by simp_all
  have "\<forall>j < i. ?buf' ! j = 0" using Suc.prems by simp
  moreover have "i \<le> length ?buf'" using i by simp
  ultimately have "prefixPrev_loop ?buf' i = None" using Suc.IH by blast
  with i z show ?case by (simp add: Let_def)
qed

lemma byte_dec_ne_255: "0 < (b::byte) \<Longrightarrow> b - 1 \<noteq> 255"
proof
  assume "0 < b" and "b - 1 = 255"
  then have "b = 255 + 1" by (metis diff_add_cancel)
  then have "b = 0" by simp
  with \<open>0 < b\<close> show False by simp
qed

lemma byte_dec_less: "0 < (b::byte) \<Longrightarrow> b - 1 < b"
  by (metis word_gt_0 unat_gt_0 diff_less zero_less_one unat_minus_one word_less_nat_alt)

lemma prefixPrev_snoc:
  "0 < b \<Longrightarrow> prefixPrev (xs @ [b]) = Some (xs @ [b - 1])"
  by (simp add: prefixPrev_def Let_def byte_dec_ne_255)

lemma PrefixNext_snoc_dec:
  "0 < b \<Longrightarrow> PrefixNext (xs @ [b - 1]) = xs @ [b]"
  by (auto simp: PrefixNext_def Let_def)

text \<open>
  Claim C9. For a non-empty key whose last byte is above 0, \<open>prefixPrev\<close> returns a
  key \<open>p\<close> (it is not nil) and the successor of \<open>p\<close> is at most the key in
  byte-lexicographic order: \<open>PrefixNext p\<close> is the key itself, and the other reading of
  the successor, \<open>p\<close> with a zero byte appended, is below it. For a key of zero bytes
  only (the empty key included), \<open>prefixPrev\<close> returns nil.
\<close>

theorem prefixPrev_PrefixNext_le:
  "(k \<noteq> [] \<and> 0 < last k \<longrightarrow>
      (\<exists>p. prefixPrev k = Some p \<and> PrefixNext p = k
         \<and> bytesCompare (PrefixNext p) k \<le> 0 \<and> bytesCompare (Next_key p) k \<le> 0))
   \<and> ((\<forall>b \<in> set k. b = 0) \<longrightarrow> prefixPrev k = None)"
proof (intro conjI impI)
  assume "k \<noteq> [] \<and> 0 < last k"
  then obtain xs b where k: "k = xs @ [b]" and b: "0 < b"
    by (metis append_butlast_last_id)
  have "bytesCompare (xs @ (b - 1) # [0]) (xs @ [b]) = -1"
    using byte_dec_less [OF b] by (rule bytesCompare_append_lt)
  then show "\<exists>p. prefixPrev k = Some p \<and> PrefixNext p = k
         \<and> bytesCompare (PrefixNext p) k \<le> 0 \<and> bytesCompare (Next_key p) k \<le> 0"
    using b by (simp add: k prefixPrev_snoc PrefixNext_snoc_dec bytesCompare_refl Next_key_def)
next
  assume "\<forall>b \<in> set k. b = 0"
  then have "\<forall>j < length k. k ! j = 0" by simp
  then show "prefixPrev k = None"
    unfolding prefixPrev_def by (intro prefixPrev_loop_zeros) simp_all
qed

theorem prefixPrev_PrefixNext_le_witness:
  "prefixPrev [1, 2] = Some [1, 1] \<and> PrefixNext [1, 1] = [1, 2 :: byte]
   \<and> bytesCompare (PrefixNext [1, 1]) [1, 2] \<le> 0 \<and> prefixPrev [0, 0] = None"
  using prefixPrev_PrefixNext_le [of "[1, 2]"] prefixPrev_PrefixNext_le [of "[0, 0]"]
  by (simp add: prefixPrev_def PrefixNext_def)

section \<open>Errors, datums and the functions the file imports\<close>

text \<open>
  Every error return of the source is a value \<open>Inl err\<close>. \<open>Panic\<close> is the Go
  runtime panic of an index or of slice bounds out of range: the model stops there
  with that value instead of reading a list out of range.
\<close>

datatype error =
    Locked nat
  | StorageError nat
  | DecodeError nat
  | EncodeError nat
  | EvalError nat
  | MissColumn int
  | EOF
  | ErrUnexpectedEOF
  | Panic

text \<open>
  The two datums the file builds itself, \<^verbatim>\<open>types.NewIntDatum(handle)\<close> and
  \<^verbatim>\<open>types.NewUintDatum(uint64(handle))\<close>; the conversion to \<^verbatim>\<open>uint64\<close> keeps the 64 bits.
\<close>

datatype datum = NewIntDatum "64 word" | NewUintDatum "64 word"

text \<open>
  \<^verbatim>\<open>map[int64]int\<close>: column id to output offset, as an association list, read with
  \<open>map_of\<close>. A lookup of an absent id gives 0 in Go (\<^verbatim>\<open>offset := colIDs[id]\<close>); the
  two-valued lookup gives \<^verbatim>\<open>ok = false\<close>. \<^verbatim>\<open>len(colIDs)\<close> is the number of keys.
\<close>

type_synonym colIDs = "(int \<times> nat) list"

definition lenColIDs :: "colIDs \<Rightarrow> nat" where
  "lenColIDs cids = length (remdups (map fst cids))"

text \<open>A cut row, \<^verbatim>\<open>[][]byte\<close>: one entry per output offset, \<open>None\<close> for a nil entry.\<close>

type_synonym row = "bytes option list"

text \<open>
  The functions and constants that \<^verbatim>\<open>executor.go\<close> calls and does not define are
  parameters of the model: the row and value codecs (\<^verbatim>\<open>rowcodec.RowToOldRow\<close>,
  \<^verbatim>\<open>cutRowNew\<close>, \<^verbatim>\<open>cutIndexKeyNew\<close>, \<^verbatim>\<open>decodeRowKey\<close>, \<^verbatim>\<open>codec.EncodeValue\<close>,
  \<^verbatim>\<open>codec.NilFlag\<close>), the flag tests of the \<^verbatim>\<open>mysql\<close> package and
  \<^verbatim>\<open>model.ExtraHandleID\<close>. \<open>cutRowNew\<close> may return a nil vector (\<open>None\<close>).
\<close>

record deps =
  RowToOldRow :: "bytes \<Rightarrow> error + bytes"
  cutRowNew :: "bytes \<Rightarrow> colIDs \<Rightarrow> error + row option"
  cutIndexKeyNew :: "bytes \<Rightarrow> nat \<Rightarrow> error + (bytes list \<times> bytes)"
  decodeRowKey :: "bytes \<Rightarrow> error + 64 word"
  EncodeValue :: "bytes \<Rightarrow> datum \<Rightarrow> error + bytes"
  NilFlag :: byte
  HasUnsignedFlag :: "32 word \<Rightarrow> bool"
  HasNotNullFlag :: "32 word \<Rightarrow> bool"
  ExtraHandleID :: int

text \<open>\<^verbatim>\<open>tipb.ColumnInfo\<close>, the fields the file reads.\<close>

record columnInfo =
  ColumnId :: int
  Flag :: "32 word"
  PkHandle :: bool
  DefaultVal :: bytes

section \<open>The row codec bridge\<close>

subsection \<open>hasColVal and getRowData (executor.go, lines 720-775)\<close>

text \<open>\<^verbatim>\<open>data[offset]\<close> is only read when the id is in the map; out of range it panics.\<close>

definition hasColVal :: "row \<Rightarrow> colIDs \<Rightarrow> int \<Rightarrow> error + bool" where
  "hasColVal data cids cid =
     (case map_of cids cid of
        None \<Rightarrow> Inr False
      | Some offset \<Rightarrow>
          if offset < length data then Inr (data ! offset \<noteq> None) else Inl Panic)"

text \<open>The assignment \<^verbatim>\<open>values[offset] = v\<close>.\<close>

definition setValue :: "row \<Rightarrow> nat \<Rightarrow> bytes \<Rightarrow> error + row" where
  "setValue values offset v =
     (if offset < length values then Inr (values[offset := Some v]) else Inl Panic)"

text \<open>The body of the loop over the declared columns, for one column.\<close>

definition fillColumn :: "deps \<Rightarrow> colIDs \<Rightarrow> 64 word \<Rightarrow> columnInfo \<Rightarrow> row \<Rightarrow> error + row" where
  "fillColumn d cids handle col values =
     (let cid = ColumnId col;
          offset = (case map_of cids cid of Some off \<Rightarrow> off | None \<Rightarrow> 0)
      in if PkHandle col \<or> cid = ExtraHandleID d then
           (let handleDatum =
                  (if HasUnsignedFlag d (Flag col) then NewUintDatum handle
                   else NewIntDatum handle)
            in case EncodeValue d [] handleDatum of
                 Inl err1 \<Rightarrow> Inl err1
               | Inr handleData \<Rightarrow> setValue values offset handleData)
         else
           (case hasColVal values cids cid of
              Inl err \<Rightarrow> Inl err
            | Inr True \<Rightarrow> Inr values
            | Inr False \<Rightarrow>
                if DefaultVal col \<noteq> [] then setValue values offset (DefaultVal col)
                else if HasNotNullFlag d (Flag col) then Inl (MissColumn cid)
                else setValue values offset [NilFlag d]))"

fun fillColumns :: "deps \<Rightarrow> colIDs \<Rightarrow> 64 word \<Rightarrow> columnInfo list \<Rightarrow> row \<Rightarrow> error + row" where
  "fillColumns d cids handle [] values = Inr values"
| "fillColumns d cids handle (col # cols) values =
     (case fillColumn d cids handle col values of
        Inl err \<Rightarrow> Inl err
      | Inr values' \<Rightarrow> fillColumns d cids handle cols values')"

definition getRowData :: "deps \<Rightarrow> columnInfo list \<Rightarrow> colIDs \<Rightarrow> 64 word \<Rightarrow> bytes \<Rightarrow> error + row" where
  "getRowData d columns cids handle val =
     (case RowToOldRow d val of
        Inl err \<Rightarrow> Inl err
      | Inr oldRow \<Rightarrow>
          (case cutRowNew d oldRow cids of
             Inl err \<Rightarrow> Inl err
           | Inr cutRow \<Rightarrow>
               (let values = (case cutRow of
                                None \<Rightarrow> replicate (lenColIDs cids) None
                              | Some vs \<Rightarrow> vs)
                in fillColumns d cids handle columns values)))"

subsection \<open>decodeHandle and decodeIndexKV (executor.go, lines 789-794 and 415-443)\<close>

text \<open>
  \<^verbatim>\<open>binary.Read(buf, binary.BigEndian, &h)\<close> on a fresh buffer over \<open>data\<close> fills the
  8 bytes of \<open>h\<close> from the front of the buffer: \<open>EOF\<close> when the buffer is empty,
  \<open>ErrUnexpectedEOF\<close> when it holds fewer than 8 bytes.
\<close>

definition BigEndian_Uint64 :: "bytes \<Rightarrow> 64 word" where
  "BigEndian_Uint64 b = foldl (\<lambda>acc x. push_bit 8 acc + ucast x) 0 b"

definition decodeHandle :: "bytes \<Rightarrow> error + 64 word" where
  "decodeHandle data =
     (if data = [] then Inl EOF
      else if length data < 8 then Inl ErrUnexpectedEOF
      else Inr (BigEndian_Uint64 (take 8 data)))"

definition pkColNotExists :: int where "pkColNotExists = 0"
definition pkColIsSigned :: int where "pkColIsSigned = 1"
definition pkColIsUnsigned :: int where "pkColIsUnsigned = 2"

definition decodeIndexKV :: "deps \<Rightarrow> nat \<Rightarrow> int \<Rightarrow> bytes \<Rightarrow> bytes \<Rightarrow> error + bytes list" where
  "decodeIndexKV d colsLen pkStatus key val =
     (case cutIndexKeyNew d key colsLen of
        Inl err \<Rightarrow> Inl err
      | Inr (values, b) \<Rightarrow>
          if length b > 0 then
            (if pkStatus \<noteq> pkColNotExists then Inr (values @ [b]) else Inr values)
          else if pkStatus \<noteq> pkColNotExists then
            (case decodeHandle val of
               Inl err \<Rightarrow> Inl err
             | Inr handle \<Rightarrow>
                 (let handleDatum =
                        (if pkStatus = pkColIsUnsigned then NewUintDatum handle
                         else NewIntDatum handle)
                  in case EncodeValue d b handleDatum of
                       Inl err \<Rightarrow> Inl err
                     | Inr handleBytes \<Rightarrow> Inr (values @ [handleBytes])))
          else Inr values)"

subsection \<open>The precedence of getRowData, as the specification words it\<close>

text \<open>
  The output offset of a declared column, the test for the handle column, the entry
  the cut row holds for a column, the condition under which a column is missing, and
  the cell the precedence rule gives a column: the encoded handle (\<open>hu\<close> unsigned,
  \<open>hs\<close> signed), else the stored value, else the default, else the NULL marker.
\<close>

definition offsetOf :: "colIDs \<Rightarrow> columnInfo \<Rightarrow> nat" where
  "offsetOf cids col = (case map_of cids (ColumnId col) of Some off \<Rightarrow> off | None \<Rightarrow> 0)"

definition isHandleColumn :: "deps \<Rightarrow> columnInfo \<Rightarrow> bool" where
  "isHandleColumn d col = (PkHandle col \<or> ColumnId col = ExtraHandleID d)"

definition storedValue :: "row \<Rightarrow> colIDs \<Rightarrow> columnInfo \<Rightarrow> bytes option" where
  "storedValue values cids col =
     (case map_of cids (ColumnId col) of None \<Rightarrow> None | Some off \<Rightarrow> values ! off)"

definition missingColumn :: "deps \<Rightarrow> row \<Rightarrow> colIDs \<Rightarrow> columnInfo \<Rightarrow> bool" where
  "missingColumn d values cids col =
     (\<not> isHandleColumn d col \<and> storedValue values cids col = None
      \<and> DefaultVal col = [] \<and> HasNotNullFlag d (Flag col))"

definition precedenceCell :: "deps \<Rightarrow> bytes \<Rightarrow> bytes \<Rightarrow> row \<Rightarrow> colIDs \<Rightarrow> columnInfo \<Rightarrow> bytes" where
  "precedenceCell d hs hu values cids col =
     (if isHandleColumn d col then (if HasUnsignedFlag d (Flag col) then hu else hs)
      else case storedValue values cids col of
             Some v \<Rightarrow> v
           | None \<Rightarrow> if DefaultVal col \<noteq> [] then DefaultVal col else [NilFlag d])"

subsection \<open>A concrete instance of the imported functions\<close>

text \<open>
  For running the model on concrete inputs: a toy codec in which the stored value is
  the column at offset 0 of a three-column row, an index key has one byte per
  column, a row key is the 8 bytes of its handle, and a datum is encoded as a flag
  byte (3 signed, 4 unsigned) followed by its 8 bytes in big-endian order.
\<close>

definition PutUint64 :: "64 word \<Rightarrow> bytes" where
  "PutUint64 w = map (\<lambda>i. ucast (drop_bit (8 * i) w)) [7, 6, 5, 4, 3, 2, 1, 0]"

definition testDeps :: deps where
  "testDeps = \<lparr>
     RowToOldRow = Inr,
     cutRowNew = (\<lambda>data cids. Inr (if data = [] then None else Some [Some data, None, None])),
     cutIndexKeyNew = (\<lambda>key n. if length key < n then Inl (DecodeError 0)
                                 else Inr (map (\<lambda>x. [x]) (take n key), drop n key)),
     decodeRowKey = (\<lambda>key. if length key = 8 then Inr (BigEndian_Uint64 key) else Inl (DecodeError 1)),
     EncodeValue = (\<lambda>b dt. Inr (b @ (case dt of NewIntDatum h \<Rightarrow> 3 # PutUint64 h
                                                | NewUintDatum h \<Rightarrow> 4 # PutUint64 h))),
     NilFlag = 0,
     HasUnsignedFlag = (\<lambda>f. f AND 32 \<noteq> 0),
     HasNotNullFlag = (\<lambda>f. f AND 1 \<noteq> 0),
     ExtraHandleID = -1 \<rparr>"

section \<open>Properties of the row codec bridge\<close>

lemma list_update_same_Some: "xs ! i = Some x \<Longrightarrow> xs = xs[i := Some x]"
  by (metis list_update_id)

lemma fillColumn_cases:
  assumes off: "map_of cids (ColumnId col) = Some off" "off < length values"
      and enc: "EncodeValue d [] (NewIntDatum handle) = Inr hs"
               "EncodeValue d [] (NewUintDatum handle) = Inr hu"
  shows "fillColumn d cids handle col values =
           (if missingColumn d values cids col then Inl (MissColumn (ColumnId col))
            else Inr (values[off := Some (precedenceCell d hs hu values cids col)]))"
  using off enc
  by (auto simp: fillColumn_def missingColumn_def precedenceCell_def isHandleColumn_def
      storedValue_def hasColVal_def setValue_def Let_def
      split: sum.splits bool.splits option.splits intro: list_update_same_Some)

lemma fillColumns_precedence:
  assumes "\<forall>col \<in> set cols. \<exists>off. map_of cids (ColumnId col) = Some off \<and> off < length values"
      and "distinct (map (offsetOf cids) cols)"
      and enc: "EncodeValue d [] (NewIntDatum handle) = Inr hs"
               "EncodeValue d [] (NewUintDatum handle) = Inr hu"
  shows "case find (missingColumn d values cids) cols of
           Some col \<Rightarrow> fillColumns d cids handle cols values = Inl (MissColumn (ColumnId col))
         | None \<Rightarrow>
             (\<exists>out. fillColumns d cids handle cols values = Inr out
                \<and> length out = length values
                \<and> (\<forall>col \<in> set cols.
                      out ! offsetOf cids col = Some (precedenceCell d hs hu values cids col))
                \<and> (\<forall>i < length values. i \<notin> offsetOf cids ` set cols \<longrightarrow> out ! i = values ! i))"
  using assms(1) assms(2)
proof (induction cols arbitrary: "values")
  case Nil
  then show ?case by simp
next
  case (Cons col cols)
  from Cons.prems obtain off where off: "map_of cids (ColumnId col) = Some off" "off < length values"
    by auto
  have offc: "offsetOf cids col = off" using off by (simp add: offsetOf_def)
  have step: "fillColumn d cids handle col values =
           (if missingColumn d values cids col then Inl (MissColumn (ColumnId col))
            else Inr (values[off := Some (precedenceCell d hs hu values cids col)]))"
    using off enc by (rule fillColumn_cases)
  show ?case
  proof (cases "missingColumn d values cids col")
    case True
    then show ?thesis using step by simp
  next
    case False
    let ?v = "values[off := Some (precedenceCell d hs hu values cids col)]"
    have fc: "fillColumn d cids handle col values = Inr ?v" using step False by simp
    have others: "offsetOf cids c \<noteq> off" if "c \<in> set cols" for c
    proof
      assume "offsetOf cids c = off"
      then have "offsetOf cids col \<in> offsetOf cids ` set cols" using that offc by force
      then show False using Cons.prems(2) by simp
    qed
    have stored: "storedValue ?v cids c = storedValue values cids c" if "c \<in> set cols" for c
      using others [OF that] by (auto simp: storedValue_def offsetOf_def split: option.splits)
    have miss: "missingColumn d ?v cids c = missingColumn d values cids c" if "c \<in> set cols" for c
      using stored [OF that] by (simp add: missingColumn_def)
    have cell: "precedenceCell d hs hu ?v cids c = precedenceCell d hs hu values cids c"
      if "c \<in> set cols" for c
      using stored [OF that] by (simp add: precedenceCell_def)
    have findeq: "find (missingColumn d ?v cids) cols = find (missingColumn d values cids) cols"
      using miss by (intro find_cong) auto
    have p1: "\<forall>c \<in> set cols. \<exists>off. map_of cids (ColumnId c) = Some off \<and> off < length ?v"
      using Cons.prems(1) by simp
    have p2: "distinct (map (offsetOf cids) cols)" using Cons.prems(2) by simp
    note IH = Cons.IH [of ?v, OF p1 p2]
    show ?thesis
    proof (cases "find (missingColumn d values cids) cols")
      case (Some c)
      then show ?thesis using IH False fc findeq by simp
    next
      case None
      with IH findeq obtain out where out: "fillColumns d cids handle cols ?v = Inr out"
        "length out = length ?v"
        "\<forall>c \<in> set cols. out ! offsetOf cids c = Some (precedenceCell d hs hu ?v cids c)"
        "\<forall>i < length ?v. i \<notin> offsetOf cids ` set cols \<longrightarrow> out ! i = ?v ! i"
        by auto
      have "off \<notin> offsetOf cids ` set cols" using others by auto
      with out(4) off(2) have "out ! off = ?v ! off" by simp
      then have a: "out ! offsetOf cids col = Some (precedenceCell d hs hu values cids col)"
        using off(2) offc by simp
      have b: "\<forall>c \<in> set cols. out ! offsetOf cids c = Some (precedenceCell d hs hu values cids c)"
        using out(3) cell by simp
      have c: "\<forall>i < length values. i \<notin> offsetOf cids ` set (col # cols) \<longrightarrow> out ! i = values ! i"
        using out(4) offc by auto
      show ?thesis using None False fc out(1,2) a b c by simp
    qed
  qed
qed


text \<open>
  Claim C3. Let the row decode succeed with the cut row \<open>values\<close> (a fresh vector of
  nil entries when \<open>cutRowNew\<close> returns nil), let the column-id map send every
  declared column to an offset of its own inside the vector, and let the handle encode
  (signed \<open>hs\<close>, unsigned \<open>hu\<close>). Then \<open>getRowData\<close> fails with \<open>MissColumn\<close> of the
  first declared column that is no handle column, has no stored value, has an empty
  default and is NOT NULL; when there is no such column it returns a vector of the same
  width in which every declared column's offset holds the cell of the precedence rule
  (handle, else stored value, else default, else NULL marker) and every other offset is
  as the cut row had it.
\<close>

theorem getRowData_precedence:
  assumes "RowToOldRow d val = Inr oldRow"
      and "cutRowNew d oldRow cids = Inr cutRow"
      and "values = (case cutRow of None \<Rightarrow> replicate (lenColIDs cids) None | Some vs \<Rightarrow> vs)"
      and "\<forall>col \<in> set columns. \<exists>off. map_of cids (ColumnId col) = Some off \<and> off < length values"
      and "distinct (map (offsetOf cids) columns)"
      and "EncodeValue d [] (NewIntDatum handle) = Inr hs"
      and "EncodeValue d [] (NewUintDatum handle) = Inr hu"
  shows "case find (missingColumn d values cids) columns of
           Some col \<Rightarrow> getRowData d columns cids handle val = Inl (MissColumn (ColumnId col))
         | None \<Rightarrow>
             (\<exists>out. getRowData d columns cids handle val = Inr out
                \<and> length out = length values
                \<and> (\<forall>col \<in> set columns.
                      out ! offsetOf cids col = Some (precedenceCell d hs hu values cids col))
                \<and> (\<forall>i < length values.
                      i \<notin> offsetOf cids ` set columns \<longrightarrow> out ! i = values ! i))"
proof -
  have run: "getRowData d columns cids handle val = fillColumns d cids handle columns values"
    using assms(1) assms(2) assms(3) by (simp add: getRowData_def)
  show ?thesis
    unfolding run by (rule fillColumns_precedence [OF assms(4) assms(5) assms(6) assms(7)])
qed

theorem getRowData_precedence_witness:
  "\<exists>out. getRowData testDeps
       [\<lparr>ColumnId = 3, Flag = 0, PkHandle = True, DefaultVal = []\<rparr>,
        \<lparr>ColumnId = 1, Flag = 0, PkHandle = False, DefaultVal = []\<rparr>,
        \<lparr>ColumnId = 2, Flag = 0, PkHandle = False, DefaultVal = [7]\<rparr>]
       [(1, 0), (2, 1), (3, 2)] 5 [9] = Inr out
     \<and> length out = 3
     \<and> out ! 2 = Some [3, 0, 0, 0, 0, 0, 0, 0, 5]
     \<and> out ! 0 = Some [9]
     \<and> out ! 1 = Some [7]"
proof -
  let ?cols = "[\<lparr>ColumnId = 3, Flag = 0, PkHandle = True, DefaultVal = []\<rparr>,
        \<lparr>ColumnId = 1, Flag = 0, PkHandle = False, DefaultVal = []\<rparr>,
        \<lparr>ColumnId = 2, Flag = 0, PkHandle = False, DefaultVal = [7]\<rparr>]"
  let ?cids = "[(1, 0), (2, 1), (3, 2)] :: colIDs"
  let ?vals = "[Some [9], None, None] :: row"
  have h1: "RowToOldRow testDeps [9] = Inr [9]" by (simp add: testDeps_def)
  have h2: "cutRowNew testDeps [9] ?cids = Inr (Some ?vals)" by (simp add: testDeps_def)
  have h3: "?vals = (case Some ?vals of
                         None \<Rightarrow> replicate (lenColIDs ?cids) None | Some vs \<Rightarrow> vs)"
    by simp
  have h4: "\<forall>col \<in> set ?cols. \<exists>off. map_of ?cids (ColumnId col) = Some off \<and> off < length ?vals"
    by simp
  have h5: "distinct (map (offsetOf ?cids) ?cols)" by (simp add: offsetOf_def)
  have h6: "EncodeValue testDeps [] (NewIntDatum 5) = Inr [3, 0, 0, 0, 0, 0, 0, 0, 5]"
    by (simp add: testDeps_def PutUint64_def drop_bit_eq_div)
  have h7: "EncodeValue testDeps [] (NewUintDatum 5) = Inr [4, 0, 0, 0, 0, 0, 0, 0, 5]"
    by (simp add: testDeps_def PutUint64_def drop_bit_eq_div)
  have nomiss: "find (missingColumn testDeps ?vals ?cids) ?cols = None"
    by (simp add: missingColumn_def isHandleColumn_def storedValue_def testDeps_def)
  have offs: "offsetOf ?cids (?cols ! 0) = 2" "offsetOf ?cids (?cols ! 1) = 0"
    "offsetOf ?cids (?cols ! 2) = 1"
    by (simp_all add: offsetOf_def)
  have cells:
    "precedenceCell testDeps [3, 0, 0, 0, 0, 0, 0, 0, 5] [4, 0, 0, 0, 0, 0, 0, 0, 5]
       ?vals ?cids (?cols ! 0) = [3, 0, 0, 0, 0, 0, 0, 0, 5]"
    "precedenceCell testDeps [3, 0, 0, 0, 0, 0, 0, 0, 5] [4, 0, 0, 0, 0, 0, 0, 0, 5]
       ?vals ?cids (?cols ! 1) = [9]"
    "precedenceCell testDeps [3, 0, 0, 0, 0, 0, 0, 0, 5] [4, 0, 0, 0, 0, 0, 0, 0, 5]
       ?vals ?cids (?cols ! 2) = [7]"
    by (simp_all add: precedenceCell_def isHandleColumn_def storedValue_def testDeps_def)
  from getRowData_precedence [OF h1 h2 h3 h4 h5 h6 h7]
  obtain out where out: "getRowData testDeps ?cols ?cids 5 [9] = Inr out"
    "length out = length ?vals"
    "\<forall>col \<in> set ?cols. out ! offsetOf ?cids col =
       Some (precedenceCell testDeps [3, 0, 0, 0, 0, 0, 0, 0, 5] [4, 0, 0, 0, 0, 0, 0, 0, 5]
               ?vals ?cids col)"
    unfolding nomiss by auto
  have "out ! offsetOf ?cids (?cols ! 0) = Some [3, 0, 0, 0, 0, 0, 0, 0, 5]"
    "out ! offsetOf ?cids (?cols ! 1) = Some [9]"
    "out ! offsetOf ?cids (?cols ! 2) = Some [7]"
    using out(3) cells by simp_all
  then have "out ! 2 = Some [3, 0, 0, 0, 0, 0, 0, 0, 5]" "out ! 0 = Some [9]" "out ! 1 = Some [7]"
    unfolding offs by simp_all
  then show ?thesis using out(1) out(2) by simp
qed

lemma decodeHandle_leading:
  "8 \<le> length val \<Longrightarrow> decodeHandle val = Inr (BigEndian_Uint64 (take 8 val))"
  by (auto simp: decodeHandle_def)

lemma decodeHandle_short: "length val < 8 \<Longrightarrow> \<exists>err. decodeHandle val = Inl err"
  by (simp add: decodeHandle_def)

text \<open>
  Claim C8, amended. Let \<open>cutIndexKeyNew\<close> slice the key into \<open>colsLen\<close> column
  segments with remainder \<open>b\<close>. When \<open>pkStatus\<close> is \<open>pkColNotExists\<close> the output is
  the column segments. Otherwise, when the remainder is not empty it is appended as
  the handle segment; when it is empty and the stored value has at least 8 bytes, the
  handle is the big-endian 64-bit integer of the value's first 8 bytes, appended as an
  encoded datum that is unsigned iff \<open>pkStatus\<close> is \<open>pkColIsUnsigned\<close>; a stored value
  of fewer than 8 bytes is an error. Every output has width \<open>colsLen\<close> when \<open>pkStatus\<close>
  is \<open>pkColNotExists\<close> and \<open>colsLen + 1\<close> otherwise.
\<close>

theorem decodeIndexKV_handle_from_value:
  assumes "cutIndexKeyNew d key colsLen = Inr (values, b)"
      and "length values = colsLen"
  shows "(pkStatus = pkColNotExists \<longrightarrow>
            decodeIndexKV d colsLen pkStatus key val = Inr values)
       \<and> (pkStatus \<noteq> pkColNotExists \<and> b \<noteq> [] \<longrightarrow>
            decodeIndexKV d colsLen pkStatus key val = Inr (values @ [b]))
       \<and> (pkStatus \<noteq> pkColNotExists \<and> b = [] \<and> 8 \<le> length val \<longrightarrow>
            decodeIndexKV d colsLen pkStatus key val =
              (case EncodeValue d []
                      (if pkStatus = pkColIsUnsigned
                       then NewUintDatum (BigEndian_Uint64 (take 8 val))
                       else NewIntDatum (BigEndian_Uint64 (take 8 val))) of
                 Inl err \<Rightarrow> Inl err
               | Inr handleBytes \<Rightarrow> Inr (values @ [handleBytes])))
       \<and> (pkStatus \<noteq> pkColNotExists \<and> b = [] \<and> length val < 8 \<longrightarrow>
            (\<exists>err. decodeIndexKV d colsLen pkStatus key val = Inl err))
       \<and> (\<forall>out. decodeIndexKV d colsLen pkStatus key val = Inr out \<longrightarrow>
            length out = (if pkStatus = pkColNotExists then colsLen else colsLen + 1))"
proof (intro conjI impI allI)
  assume "pkStatus = pkColNotExists"
  then show "decodeIndexKV d colsLen pkStatus key val = Inr values"
    using assms(1) by (simp add: decodeIndexKV_def)
next
  assume "pkStatus \<noteq> pkColNotExists \<and> b \<noteq> []"
  then show "decodeIndexKV d colsLen pkStatus key val = Inr (values @ [b])"
    using assms(1) by (simp add: decodeIndexKV_def)
next
  assume "pkStatus \<noteq> pkColNotExists \<and> b = [] \<and> 8 \<le> length val"
  then show "decodeIndexKV d colsLen pkStatus key val =
              (case EncodeValue d []
                      (if pkStatus = pkColIsUnsigned
                       then NewUintDatum (BigEndian_Uint64 (take 8 val))
                       else NewIntDatum (BigEndian_Uint64 (take 8 val))) of
                 Inl err \<Rightarrow> Inl err
               | Inr handleBytes \<Rightarrow> Inr (values @ [handleBytes]))"
    using assms(1) by (simp add: decodeIndexKV_def decodeHandle_leading)
next
  assume "pkStatus \<noteq> pkColNotExists \<and> b = [] \<and> length val < 8"
  then show "\<exists>err. decodeIndexKV d colsLen pkStatus key val = Inl err"
    using assms(1) decodeHandle_short [of val] by (auto simp: decodeIndexKV_def)
next
  fix out
  assume "decodeIndexKV d colsLen pkStatus key val = Inr out"
  then show "length out = (if pkStatus = pkColNotExists then colsLen else colsLen + 1)"
    using assms
    by (auto simp: decodeIndexKV_def Let_def split: if_splits sum.splits)
qed

theorem decodeIndexKV_handle_from_value_witness:
  "decodeIndexKV testDeps 1 pkColIsSigned [5] [0, 0, 0, 0, 0, 0, 0, 42]
     = Inr [[5], [3, 0, 0, 0, 0, 0, 0, 0, 42]]
   \<and> decodeIndexKV testDeps 1 pkColNotExists [5] [0, 0, 0, 0, 0, 0, 0, 42] = Inr [[5]]"
proof -
  have h1: "cutIndexKeyNew testDeps [5] 1 = Inr ([[5]], [])" by (simp add: testDeps_def)
  have h2: "length [[5 :: byte]] = 1" by simp
  show ?thesis
    using decodeIndexKV_handle_from_value [OF h1 h2, of pkColIsSigned "[0, 0, 0, 0, 0, 0, 0, 42]"]
      decodeIndexKV_handle_from_value [OF h1 h2, of pkColNotExists "[0, 0, 0, 0, 0, 0, 0, 42]"]
    by (simp add: pkColIsSigned_def pkColNotExists_def pkColIsUnsigned_def testDeps_def
        BigEndian_Uint64_def PutUint64_def drop_bit_eq_div)
qed

text \<open>
  The claim as stated reads the handle from the trailing 8 bytes of the stored value.
  On a stored value of 9 bytes the code reads the first 8 bytes (handle 1), not the
  last 8 (handle 258).
\<close>

theorem decodeIndexKV_trailing_bytes_counterexample:
  "decodeIndexKV testDeps 1 pkColIsSigned [5] [0, 0, 0, 0, 0, 0, 0, 1, 2]
     = Inr [[5], [3, 0, 0, 0, 0, 0, 0, 0, 1]]
   \<and> BigEndian_Uint64 (drop (length [0, 0, 0, 0, 0, 0, 0, 1, 2 :: byte] - 8)
                           [0, 0, 0, 0, 0, 0, 0, 1, 2]) = 258
   \<and> decodeIndexKV testDeps 1 pkColIsSigned [5] [0, 0, 0, 0, 0, 0, 0, 1, 2]
     \<noteq> Inr [[5], 3 # PutUint64 258]"
  by (simp add: decodeIndexKV_def testDeps_def decodeHandle_def BigEndian_Uint64_def
      PutUint64_def drop_bit_eq_div pkColIsSigned_def pkColNotExists_def pkColIsUnsigned_def)

section \<open>The scan executors\<close>

text \<open>
  \<^verbatim>\<open>kv.KeyRange\<close>, the half-open range of keys from \<open>StartKey\<close> up to, and
  without, \<open>EndKey\<close>. The keys of a range are slices, not nil.
\<close>

record keyRange =
  StartKey :: bytes
  EndKey :: bytes

text \<open>
  Modelled from the spec: \<^verbatim>\<open>kv.KeyRange.IsPoint\<close> belongs to the imported \<^verbatim>\<open>kv\<close>
  package. "A range is a point when \<^verbatim>\<open>end == PrefixNext(start)\<close>."
\<close>

definition IsPoint :: "keyRange \<Rightarrow> bool" where
  "IsPoint rng = (EndKey rng = PrefixNext (StartKey rng))"

text \<open>
  The store is the only thing outside its own fields that an executor touches. The
  model keeps a log of the calls an executor makes to the store, in order, with their
  arguments (\<^verbatim>\<open>CheckRangeLock(startTS, start, end)\<close>, \<^verbatim>\<open>Get(key, startTS)\<close>,
  \<^verbatim>\<open>Scan(start, end, limit, startTS, f)\<close>, \<^verbatim>\<open>ReverseScan(start, end, limit, startTS, f)\<close>).
\<close>

datatype storeCall =
    CallCheckRangeLock nat bytes bytes
  | CallGet bytes nat
  | CallScan bytes bytes nat nat
  | CallReverseScan bytes bytes nat nat

text \<open>
  \<^verbatim>\<open>MVCCStore.CheckRangeLock\<close> and the reader's \<^verbatim>\<open>Get\<close>, \<^verbatim>\<open>Scan\<close> and
  \<^verbatim>\<open>ReverseScan\<close> are not defined in \<^verbatim>\<open>executor.go\<close>: they are parameters. A scan
  is given by the key-value pairs it hands to its callback, in order, and by the error
  it returns itself once the callback has accepted them all; a callback that returns an
  error stops the scan, which returns that error.
\<close>

record store =
  CheckRangeLock :: "nat \<Rightarrow> bytes \<Rightarrow> bytes \<Rightarrow> error option"
  Get :: "bytes \<Rightarrow> nat \<Rightarrow> error + bytes"
  Scan :: "bytes \<Rightarrow> bytes \<Rightarrow> nat \<Rightarrow> nat \<Rightarrow> (bytes \<times> bytes) list \<times> error option"
  ReverseScan :: "bytes \<Rightarrow> bytes \<Rightarrow> nat \<Rightarrow> nat \<Rightarrow> (bytes \<times> bytes) list \<times> error option"

text \<open>
  The fields that \<^verbatim>\<open>tableScanExec\<close> and \<^verbatim>\<open>indexScanExec\<close> have in common (lines
  43-62 and 261-282), with the log of store calls. \<open>seekKey\<close> and \<open>counts\<close> may be
  nil. The rows differ in type: a table row has nil entries, an index row has none.
\<close>

record 'r scanExec =
  Desc :: bool
  kvRanges :: "keyRange list"
  startTS :: nat
  seekKey :: "bytes option"
  start :: nat
  counts :: "int list option"
  ignoreLock :: bool
  lockChecked :: bool
  rowCursor :: nat
  rows :: "'r list"
  calls :: "storeCall list"

record tableScanExec = "row scanExec" +
  Columns :: "columnInfo list"
  colIDs :: colIDs
  rangeCursor :: nat

subsection \<open>tableScanExec (executor.go, lines 72-253)\<close>

definition scanLimit :: nat where "scanLimit = 128"

text \<open>The loop of \<^verbatim>\<open>checkRangeLock\<close> over the ranges, left at the first error.\<close>

fun checkRanges :: "store \<Rightarrow> nat \<Rightarrow> keyRange list \<Rightarrow> storeCall list \<times> error option" where
  "checkRanges st ts [] = ([], None)"
| "checkRanges st ts (rng # rans) =
     (case CheckRangeLock st ts (StartKey rng) (EndKey rng) of
        Some err \<Rightarrow> ([CallCheckRangeLock ts (StartKey rng) (EndKey rng)], Some err)
      | None \<Rightarrow>
          (case checkRanges st ts rans of
             (cs, r) \<Rightarrow> (CallCheckRangeLock ts (StartKey rng) (EndKey rng) # cs, r)))"

definition tableScan_checkRangeLock :: "store \<Rightarrow> tableScanExec \<Rightarrow> tableScanExec \<times> error option" where
  "tableScan_checkRangeLock st e =
     (if \<not> ignoreLock e \<and> \<not> lockChecked e then
        (case checkRanges st (startTS e) (kvRanges e) of
           (cs, Some err) \<Rightarrow> (e\<lparr>calls := calls e @ cs\<rparr>, Some err)
         | (cs, None) \<Rightarrow> (e\<lparr>calls := calls e @ cs, lockChecked := True\<rparr>, None))
      else (e, None))"

definition tableScan_nextRange :: "tableScanExec \<Rightarrow> tableScanExec" where
  "tableScan_nextRange e = e\<lparr>rangeCursor := rangeCursor e + 1, seekKey := None\<rparr>"

definition tableScan_fillRowsFromPoint ::
  "deps \<Rightarrow> store \<Rightarrow> tableScanExec \<Rightarrow> keyRange \<Rightarrow> tableScanExec \<times> error option" where
  "tableScan_fillRowsFromPoint d st e rng =
     (let e1 = e\<lparr>calls := calls e @ [CallGet (StartKey rng) (startTS e)]\<rparr>
      in case Get st (StartKey rng) (startTS e) of
           Inl err \<Rightarrow> (e1, Some err)
         | Inr val \<Rightarrow>
             if val = [] then (e1, None)
             else
               (case decodeRowKey d (StartKey rng) of
                  Inl err \<Rightarrow> (e1, Some err)
                | Inr handle \<Rightarrow>
                    (case getRowData d (Columns e1) (colIDs e1) handle val of
                       Inl err \<Rightarrow> (e1, Some err)
                     | Inr row \<Rightarrow> (e1\<lparr>rows := rows e1 @ [row]\<rparr>, None))))"

text \<open>
  The callback \<^verbatim>\<open>scanFunc\<close> of \<^verbatim>\<open>fillRowsFromRange\<close>, run over the pairs the scan
  hands it; it sets \<^verbatim>\<open>lastKey\<close> first, and its first error ends the scan.
\<close>

fun tableScan_scanFunc ::
  "deps \<Rightarrow> tableScanExec \<Rightarrow> bytes option \<Rightarrow> (bytes \<times> bytes) list
     \<Rightarrow> tableScanExec \<times> bytes option \<times> error option" where
  "tableScan_scanFunc d e lastKey [] = (e, lastKey, None)"
| "tableScan_scanFunc d e lastKey ((key, val) # kvs) =
     (case decodeRowKey d key of
        Inl err \<Rightarrow> (e, Some key, Some err)
      | Inr handle \<Rightarrow>
          (case getRowData d (Columns e) (colIDs e) handle val of
             Inl err \<Rightarrow> (e, Some key, Some err)
           | Inr row \<Rightarrow> tableScan_scanFunc d (e\<lparr>rows := rows e @ [row]\<rparr>) (Some key) kvs))"

definition tableScan_fillRowsFromRange ::
  "deps \<Rightarrow> store \<Rightarrow> tableScanExec \<Rightarrow> keyRange \<Rightarrow> tableScanExec \<times> error option" where
  "tableScan_fillRowsFromRange d st e rng =
     (let sk = (case seekKey e of
                  None \<Rightarrow> if Desc e then EndKey rng else StartKey rng
                | Some k \<Rightarrow> k);
          call = (if Desc e then CallReverseScan (StartKey rng) sk scanLimit (startTS e)
                  else CallScan sk (EndKey rng) scanLimit (startTS e));
          res = (if Desc e then ReverseScan st (StartKey rng) sk scanLimit (startTS e)
                 else Scan st sk (EndKey rng) scanLimit (startTS e));
          e1 = e\<lparr>seekKey := Some sk, calls := calls e @ [call]\<rparr>
      in case tableScan_scanFunc d e1 None (fst res) of
           (e2, lastKey, cberr) \<Rightarrow>
             (case (case cberr of Some err \<Rightarrow> Some err | None \<Rightarrow> snd res) of
                Some err \<Rightarrow> (e2, Some err)
              | None \<Rightarrow>
                  (case lastKey of
                     None \<Rightarrow> (e2, None)
                   | Some lk \<Rightarrow>
                       (e2\<lparr>seekKey := (if Desc e then prefixPrev lk else Some (PrefixNext lk))\<rparr>,
                        None))))"

text \<open>One turn of the loop of \<^verbatim>\<open>fillRows\<close>, up to the test of \<^verbatim>\<open>err\<close>.\<close>

definition tableScan_fillRows_body ::
  "deps \<Rightarrow> store \<Rightarrow> tableScanExec \<Rightarrow> tableScanExec \<times> error option" where
  "tableScan_fillRows_body d st e =
     (let rng = kvRanges e ! rangeCursor e
      in if IsPoint rng then
           (case tableScan_fillRowsFromPoint d st e rng of
              (e1, err) \<Rightarrow> (tableScan_nextRange e1, err))
         else
           (case tableScan_fillRowsFromRange d st e rng of
              (e1, err) \<Rightarrow> (if rows e1 = [] then tableScan_nextRange e1 else e1, err)))"

text \<open>
  What the refill leaves alone: the frame of a step lists the fields it keeps, says
  that the range cursor does not move back, and that the calls it adds to the log are
  no lock checks.
\<close>

definition isLockCall :: "storeCall \<Rightarrow> bool" where
  "isLockCall c = (case c of CallCheckRangeLock ts k1 k2 \<Rightarrow> True | _ \<Rightarrow> False)"

definition tableScan_frame :: "tableScanExec \<Rightarrow> tableScanExec \<Rightarrow> bool" where
  "tableScan_frame e e' =
     (Desc e' = Desc e \<and> kvRanges e' = kvRanges e \<and> startTS e' = startTS e
      \<and> start e' = start e \<and> counts e' = counts e \<and> ignoreLock e' = ignoreLock e
      \<and> lockChecked e' = lockChecked e
      \<and> Columns e' = Columns e \<and> colIDs e' = colIDs e
      \<and> rangeCursor e \<le> rangeCursor e'
      \<and> (\<exists>cs. calls e' = calls e @ cs \<and> (\<forall>c \<in> set cs. \<not> isLockCall c)))"

lemma tableScan_frame_refl: "tableScan_frame e e"
  by (simp add: tableScan_frame_def)

lemma tableScan_frame_trans:
  "tableScan_frame e1 e2 \<Longrightarrow> tableScan_frame e2 e3 \<Longrightarrow> tableScan_frame e1 e3"
  by (auto simp: tableScan_frame_def)

lemma tableScan_scanFunc_frame:
  "tableScan_scanFunc d e lk kvs = (e', lk', r) \<Longrightarrow>
     tableScan_frame e e' \<and> rowCursor e' = rowCursor e \<and> seekKey e' = seekKey e
     \<and> rangeCursor e' = rangeCursor e \<and> calls e' = calls e"
proof (induction kvs arbitrary: e lk)
  case Nil
  then show ?case by (simp add: tableScan_frame_refl)
next
  case (Cons kv kvs)
  obtain key val where kv: "kv = (key, val)" by (cases kv)
  show ?case
  proof (cases "decodeRowKey d key")
    case (Inl err)
    with Cons.prems kv show ?thesis by (auto simp: tableScan_frame_refl)
  next
    case (Inr handle)
    show ?thesis
    proof (cases "getRowData d (Columns e) (colIDs e) handle val")
      case (Inl err)
      with Cons.prems kv Inr show ?thesis by (auto simp: tableScan_frame_refl)
    next
      case (Inr row)
      with Cons.prems kv \<open>decodeRowKey d key = Inr handle\<close>
      have "tableScan_scanFunc d (e\<lparr>rows := rows e @ [row]\<rparr>) (Some key) kvs = (e', lk', r)"
        by simp
      from Cons.IH [OF this] show ?thesis by (simp add: tableScan_frame_def)
    qed
  qed
qed

lemma tableScan_fillRowsFromPoint_frame:
  "tableScan_fillRowsFromPoint d st e rng = (e', r) \<Longrightarrow>
     tableScan_frame e e' \<and> rowCursor e' = rowCursor e \<and> rangeCursor e' = rangeCursor e
     \<and> seekKey e' = seekKey e"
  by (auto simp: tableScan_fillRowsFromPoint_def tableScan_frame_def isLockCall_def Let_def
      split: sum.splits if_splits)

lemma tableScan_fillRowsFromRange_frame:
  assumes "tableScan_fillRowsFromRange d st e rng = (e', r)"
  shows "tableScan_frame e e' \<and> rowCursor e' = rowCursor e \<and> rangeCursor e' = rangeCursor e"
proof -
  let ?sk = "case seekKey e of None \<Rightarrow> if Desc e then EndKey rng else StartKey rng | Some k \<Rightarrow> k"
  let ?call = "if Desc e then CallReverseScan (StartKey rng) ?sk scanLimit (startTS e)
               else CallScan ?sk (EndKey rng) scanLimit (startTS e)"
  let ?res = "if Desc e then ReverseScan st (StartKey rng) ?sk scanLimit (startTS e)
              else Scan st ?sk (EndKey rng) scanLimit (startTS e)"
  let ?e1 = "e\<lparr>seekKey := Some ?sk, calls := calls e @ [?call]\<rparr>"
  obtain e2 lastKey cberr where sf: "tableScan_scanFunc d ?e1 None (fst ?res) = (e2, lastKey, cberr)"
    by (metis prod_cases3)
  from tableScan_scanFunc_frame [OF sf]
  have f2: "tableScan_frame ?e1 e2" "rowCursor e2 = rowCursor e" "rangeCursor e2 = rangeCursor e"
    "calls e2 = calls ?e1"
    by simp_all
  have f1: "tableScan_frame e ?e1" by (simp add: tableScan_frame_def isLockCall_def)
  have f12: "tableScan_frame e e2" using f1 f2(1) by (rule tableScan_frame_trans)
  have "e' = e2 \<or> (\<exists>sk. e' = e2\<lparr>seekKey := sk\<rparr>)"
    using assms sf
    by (auto simp: tableScan_fillRowsFromRange_def Let_def split: option.splits)
  then show ?thesis using f12 f2(2) f2(3) by (auto simp: tableScan_frame_def)
qed

lemma tableScan_nextRange_frame: "tableScan_frame e (tableScan_nextRange e)"
  by (simp add: tableScan_frame_def tableScan_nextRange_def)

lemma tableScan_fillRows_body_frame:
  assumes "tableScan_fillRows_body d st e = (e', r)"
  shows "tableScan_frame e e' \<and> rowCursor e' = rowCursor e
         \<and> (rows e' = [] \<longrightarrow> rangeCursor e' = rangeCursor e + 1)"
proof (cases "IsPoint (kvRanges e ! rangeCursor e)")
  case True
  obtain e1 r1 where p: "tableScan_fillRowsFromPoint d st e (kvRanges e ! rangeCursor e) = (e1, r1)"
    by fastforce
  with assms True have e': "e' = tableScan_nextRange e1"
    by (simp add: tableScan_fillRows_body_def)
  from tableScan_fillRowsFromPoint_frame [OF p] tableScan_nextRange_frame [of e1]
  show ?thesis unfolding e'
    by (auto intro: tableScan_frame_trans simp: tableScan_nextRange_def)
next
  case False
  obtain e1 r1 where p: "tableScan_fillRowsFromRange d st e (kvRanges e ! rangeCursor e) = (e1, r1)"
    by fastforce
  with assms False have e': "e' = (if rows e1 = [] then tableScan_nextRange e1 else e1)"
    by (simp add: tableScan_fillRows_body_def)
  from tableScan_fillRowsFromRange_frame [OF p] tableScan_nextRange_frame [of e1]
  show ?thesis unfolding e'
    by (auto intro: tableScan_frame_trans simp: tableScan_nextRange_def)
qed

function tableScan_fillRows ::
  "deps \<Rightarrow> store \<Rightarrow> tableScanExec \<Rightarrow> tableScanExec \<times> error option" where
  "tableScan_fillRows d st e =
     (if rangeCursor e < length (kvRanges e) then
        (case tableScan_fillRows_body d st e of
           (e1, Some err) \<Rightarrow> (e1, Some err)
         | (e1, None) \<Rightarrow> if rows e1 \<noteq> [] then (e1, None) else tableScan_fillRows d st e1)
      else (e, None))"
  by pat_completeness auto
termination
proof (relation "measure (\<lambda>(d, st, e). length (kvRanges e) - rangeCursor e)")
  show "wf (measure (\<lambda>(d, st, e). length (kvRanges e) - rangeCursor e))" by simp
next
  fix d st e x1 e1 x2
  assume a: "rangeCursor e < length (kvRanges e)"
    "(e1, x2) = tableScan_fillRows_body d st e" "x2 = None" "\<not> rows e1 \<noteq> []"
  from tableScan_fillRows_body_frame [OF a(2) [symmetric]] a(4)
  have "rangeCursor e1 = rangeCursor e + 1 \<and> kvRanges e1 = kvRanges e"
    by (simp add: tableScan_frame_def)
  with a(1)
  show "((d, st, e1), (d, st, e)) \<in> measure (\<lambda>(d, st, e). length (kvRanges e) - rangeCursor e)"
    by simp
qed

declare tableScan_fillRows.simps [simp del]

lemma tableScan_fillRows_frame:
  "tableScan_fillRows d st e = (e', r) \<Longrightarrow> tableScan_frame e e' \<and> rowCursor e' = rowCursor e"
proof (induction d st e arbitrary: e' r rule: tableScan_fillRows.induct)
  case (1 d st e)
  show ?case
  proof (cases "rangeCursor e < length (kvRanges e)")
    case False
    with "1.prems" show ?thesis
      by (simp add: tableScan_fillRows.simps [of d st e] tableScan_frame_refl)
  next
    case True
    obtain e1 r1 where b: "tableScan_fillRows_body d st e = (e1, r1)" by fastforce
    note fb = tableScan_fillRows_body_frame [OF b]
    show ?thesis
    proof (cases "r1 = None \<and> rows e1 = []")
      case False
      with "1.prems" True b have "e' = e1"
        by (auto simp: tableScan_fillRows.simps [of d st e] split: option.splits)
      with fb show ?thesis by simp
    next
      case rec: True
      with "1.prems" True b have "tableScan_fillRows d st e1 = (e', r)"
        by (simp add: tableScan_fillRows.simps [of d st e])
      from "1.IH" [OF True b [symmetric] _ _ this] rec
      have "tableScan_frame e1 e' \<and> rowCursor e' = rowCursor e1" by simp
      with fb show ?thesis by (auto intro: tableScan_frame_trans)
    qed
  qed
qed

definition tableScan_refill :: "deps \<Rightarrow> store \<Rightarrow> tableScanExec \<Rightarrow> tableScanExec \<times> error option" where
  "tableScan_refill d st e = tableScan_fillRows d st (e\<lparr>rowCursor := 0, rows := []\<rparr>)"

definition tableScan_getOneRow :: "tableScanExec \<Rightarrow> tableScanExec \<times> row option" where
  "tableScan_getOneRow e =
     (if rowCursor e < length (rows e)
      then (e\<lparr>rowCursor := rowCursor e + 1\<rparr>, Some (rows e ! rowCursor e))
      else (e, None))"

function tableScan_Next_loop ::
  "deps \<Rightarrow> store \<Rightarrow> tableScanExec \<Rightarrow> tableScanExec \<times> (error + row option)" where
  "tableScan_Next_loop d st e =
     (case tableScan_getOneRow e of
        (e1, Some v) \<Rightarrow> (e1, Inr (Some v))
      | (e1, None) \<Rightarrow>
          (case tableScan_refill d st e1 of
             (e2, Some err) \<Rightarrow> (e2, Inl err)
           | (e2, None) \<Rightarrow>
               if rows e2 = [] then (e2, Inr None) else tableScan_Next_loop d st e2))"
  by pat_completeness auto
termination
proof (relation "measure (\<lambda>(d, st, e). if rowCursor e < length (rows e) then 0 else 1)")
  show "wf (measure (\<lambda>(d, st, e :: tableScanExec). if rowCursor e < length (rows e) then 0 else (1::nat)))"
    by simp
next
  fix d st e x1 e1 x2 xa e2 y
  assume a: "(e1, x2) = tableScan_getOneRow e" "x2 = None"
    "(e2, y) = tableScan_refill d st e1" "y = None" "rows e2 \<noteq> []"
  from a(1) a(2) have "\<not> rowCursor e < length (rows e)"
    by (auto simp: tableScan_getOneRow_def split: if_splits)
  moreover have "rowCursor e2 = 0"
    using tableScan_fillRows_frame [of d st "e1\<lparr>rowCursor := 0, rows := []\<rparr>" e2 y] a(3)
    by (simp add: tableScan_refill_def)
  ultimately show "((d, st, e2), (d, st, e)) \<in>
      measure (\<lambda>(d, st, e). if rowCursor e < length (rows e) then 0 else 1)"
    using a(5) by simp
qed

declare tableScan_Next_loop.simps [simp del]

definition tableScan_Next ::
  "deps \<Rightarrow> store \<Rightarrow> tableScanExec \<Rightarrow> tableScanExec \<times> (error + row option)" where
  "tableScan_Next d st e =
     (case tableScan_checkRangeLock st e of
        (e1, Some err) \<Rightarrow> (e1, Inl err)
      | (e1, None) \<Rightarrow> tableScan_Next_loop d st e1)"

text \<open>
  \<^verbatim>\<open>ResetCounts\<close> and \<^verbatim>\<open>Counts\<close>. \<^verbatim>\<open>e.counts[e.start] = 0\<close> panics when the
  cursor is past the vector; a slice expression \<^verbatim>\<open>s[lo:hi]\<close> panics unless
  \<open>lo \<le> hi \<le> len s\<close> (the vector has no spare capacity).
\<close>

definition tableScan_ResetCounts :: "tableScanExec \<Rightarrow> error + tableScanExec" where
  "tableScan_ResetCounts e =
     (case counts e of
        None \<Rightarrow> Inr e
      | Some cs \<Rightarrow>
          if rangeCursor e < length cs
          then Inr (e\<lparr>start := rangeCursor e, counts := Some (cs[rangeCursor e := 0])\<rparr>)
          else Inl Panic)"

definition sliceOf :: "'a list \<Rightarrow> nat \<Rightarrow> nat \<Rightarrow> error + 'a list" where
  "sliceOf xs lo hi =
     (if lo \<le> hi \<and> hi \<le> length xs then Inr (take (hi - lo) (drop lo xs)) else Inl Panic)"

definition tableScan_Counts :: "tableScanExec \<Rightarrow> error + int list option" where
  "tableScan_Counts e =
     (case counts e of
        None \<Rightarrow> Inr None
      | Some cs \<Rightarrow>
          (case (if seekKey e = None then sliceOf cs (start e) (rangeCursor e)
                 else sliceOf cs (start e) (rangeCursor e + 1)) of
             Inl err \<Rightarrow> Inl err
           | Inr sl \<Rightarrow> Inr (Some sl)))"

subsection \<open>indexScanExec (executor.go, lines 292-482)\<close>

text \<open>\<open>Unique\<close> is a pointer to a bool: \<open>None\<close> is nil.\<close>

record indexScanExec = "bytes list scanExec" +
  colsLen :: nat
  pkStatus :: int
  Unique :: "bool option"
  ranCursor :: nat

definition indexScan_isUnique :: "indexScanExec \<Rightarrow> bool" where
  "indexScan_isUnique e = (Unique e = Some True)"

definition indexScan_checkRangeLock :: "store \<Rightarrow> indexScanExec \<Rightarrow> indexScanExec \<times> error option" where
  "indexScan_checkRangeLock st e =
     (if \<not> ignoreLock e \<and> \<not> lockChecked e then
        (case checkRanges st (startTS e) (kvRanges e) of
           (cs, Some err) \<Rightarrow> (e\<lparr>calls := calls e @ cs\<rparr>, Some err)
         | (cs, None) \<Rightarrow> (e\<lparr>calls := calls e @ cs, lockChecked := True\<rparr>, None))
      else (e, None))"

definition indexScan_nextRange :: "indexScanExec \<Rightarrow> indexScanExec" where
  "indexScan_nextRange e = e\<lparr>ranCursor := ranCursor e + 1, seekKey := None\<rparr>"

definition indexScan_fillRowsFromPoint ::
  "deps \<Rightarrow> store \<Rightarrow> indexScanExec \<Rightarrow> keyRange \<Rightarrow> indexScanExec \<times> error option" where
  "indexScan_fillRowsFromPoint d st e rng =
     (let e1 = e\<lparr>calls := calls e @ [CallGet (StartKey rng) (startTS e)]\<rparr>
      in case Get st (StartKey rng) (startTS e) of
           Inl err \<Rightarrow> (e1, Some err)
         | Inr val \<Rightarrow>
             if val = [] then (e1, None)
             else
               (case decodeIndexKV d (colsLen e1) (pkStatus e1) (StartKey rng) val of
                  Inl err \<Rightarrow> (e1, Some err)
                | Inr row \<Rightarrow> (e1\<lparr>rows := rows e1 @ [row]\<rparr>, None)))"

text \<open>
  The callback \<^verbatim>\<open>scanFunc\<close> of \<^verbatim>\<open>fillRowsFromRange\<close>, run over the pairs the scan
  hands it; it sets \<^verbatim>\<open>lastKey\<close> first, and its first error ends the scan.
\<close>

fun indexScan_scanFunc ::
  "deps \<Rightarrow> indexScanExec \<Rightarrow> bytes option \<Rightarrow> (bytes \<times> bytes) list
     \<Rightarrow> indexScanExec \<times> bytes option \<times> error option" where
  "indexScan_scanFunc d e lastKey [] = (e, lastKey, None)"
| "indexScan_scanFunc d e lastKey ((key, val) # kvs) =
     (case decodeIndexKV d (colsLen e) (pkStatus e) key val of
        Inl err \<Rightarrow> (e, Some key, Some err)
      | Inr row \<Rightarrow> indexScan_scanFunc d (e\<lparr>rows := rows e @ [row]\<rparr>) (Some key) kvs)"

definition indexScan_fillRowsFromRange ::
  "deps \<Rightarrow> store \<Rightarrow> indexScanExec \<Rightarrow> keyRange \<Rightarrow> indexScanExec \<times> error option" where
  "indexScan_fillRowsFromRange d st e rng =
     (let sk = (case seekKey e of
                  None \<Rightarrow> if Desc e then EndKey rng else StartKey rng
                | Some k \<Rightarrow> k);
          call = (if Desc e then CallReverseScan (StartKey rng) sk scanLimit (startTS e)
                  else CallScan sk (EndKey rng) scanLimit (startTS e));
          res = (if Desc e then ReverseScan st (StartKey rng) sk scanLimit (startTS e)
                 else Scan st sk (EndKey rng) scanLimit (startTS e));
          e1 = e\<lparr>seekKey := Some sk, calls := calls e @ [call]\<rparr>
      in case indexScan_scanFunc d e1 None (fst res) of
           (e2, lastKey, cberr) \<Rightarrow>
             (case (case cberr of Some err \<Rightarrow> Some err | None \<Rightarrow> snd res) of
                Some err \<Rightarrow> (e2, Some err)
              | None \<Rightarrow>
                  (case lastKey of
                     None \<Rightarrow> (e2, None)
                   | Some lk \<Rightarrow>
                       (e2\<lparr>seekKey := (if Desc e then prefixPrev lk else Some (PrefixNext lk))\<rparr>,
                        None))))"

text \<open>One turn of the loop of \<^verbatim>\<open>fillRows\<close>, up to the test of \<^verbatim>\<open>err\<close>.\<close>

definition indexScan_fillRows_body ::
  "deps \<Rightarrow> store \<Rightarrow> indexScanExec \<Rightarrow> indexScanExec \<times> error option" where
  "indexScan_fillRows_body d st e =
     (let rng = kvRanges e ! ranCursor e
      in if indexScan_isUnique e \<and> IsPoint rng then
           (case indexScan_fillRowsFromPoint d st e rng of
              (e1, err) \<Rightarrow> (indexScan_nextRange e1, err))
         else
           (case indexScan_fillRowsFromRange d st e rng of
              (e1, err) \<Rightarrow> (if rows e1 = [] then indexScan_nextRange e1 else e1, err)))"

text \<open>The frame of a step of the index scan.\<close>

definition indexScan_frame :: "indexScanExec \<Rightarrow> indexScanExec \<Rightarrow> bool" where
  "indexScan_frame e e' =
     (Desc e' = Desc e \<and> kvRanges e' = kvRanges e \<and> startTS e' = startTS e
      \<and> start e' = start e \<and> counts e' = counts e \<and> ignoreLock e' = ignoreLock e
      \<and> lockChecked e' = lockChecked e
      \<and> colsLen e' = colsLen e \<and> pkStatus e' = pkStatus e \<and> Unique e' = Unique e
      \<and> ranCursor e \<le> ranCursor e'
      \<and> (\<exists>cs. calls e' = calls e @ cs \<and> (\<forall>c \<in> set cs. \<not> isLockCall c)))"

lemma indexScan_frame_refl: "indexScan_frame e e"
  by (simp add: indexScan_frame_def)

lemma indexScan_frame_trans:
  "indexScan_frame e1 e2 \<Longrightarrow> indexScan_frame e2 e3 \<Longrightarrow> indexScan_frame e1 e3"
  by (auto simp: indexScan_frame_def)

lemma indexScan_scanFunc_frame:
  "indexScan_scanFunc d e lk kvs = (e', lk', r) \<Longrightarrow>
     indexScan_frame e e' \<and> rowCursor e' = rowCursor e \<and> seekKey e' = seekKey e
     \<and> ranCursor e' = ranCursor e \<and> calls e' = calls e"
proof (induction kvs arbitrary: e lk)
  case Nil
  then show ?case by (simp add: indexScan_frame_refl)
next
  case (Cons kv kvs)
  obtain key val where kv: "kv = (key, val)" by (cases kv)
  show ?case
  proof (cases "decodeIndexKV d (colsLen e) (pkStatus e) key val")
    case (Inl err)
    with Cons.prems kv show ?thesis by (auto simp: indexScan_frame_refl)
  next
    case (Inr row)
    with Cons.prems kv
    have "indexScan_scanFunc d (e\<lparr>rows := rows e @ [row]\<rparr>) (Some key) kvs = (e', lk', r)"
      by simp
    from Cons.IH [OF this] show ?thesis by (simp add: indexScan_frame_def)
  qed
qed

lemma indexScan_fillRowsFromPoint_frame:
  "indexScan_fillRowsFromPoint d st e rng = (e', r) \<Longrightarrow>
     indexScan_frame e e' \<and> rowCursor e' = rowCursor e \<and> ranCursor e' = ranCursor e
     \<and> seekKey e' = seekKey e"
  by (auto simp: indexScan_fillRowsFromPoint_def indexScan_frame_def isLockCall_def Let_def
      split: sum.splits if_splits)

lemma indexScan_fillRowsFromRange_frame:
  assumes "indexScan_fillRowsFromRange d st e rng = (e', r)"
  shows "indexScan_frame e e' \<and> rowCursor e' = rowCursor e \<and> ranCursor e' = ranCursor e"
proof -
  let ?sk = "case seekKey e of None \<Rightarrow> if Desc e then EndKey rng else StartKey rng | Some k \<Rightarrow> k"
  let ?call = "if Desc e then CallReverseScan (StartKey rng) ?sk scanLimit (startTS e)
               else CallScan ?sk (EndKey rng) scanLimit (startTS e)"
  let ?res = "if Desc e then ReverseScan st (StartKey rng) ?sk scanLimit (startTS e)
              else Scan st ?sk (EndKey rng) scanLimit (startTS e)"
  let ?e1 = "e\<lparr>seekKey := Some ?sk, calls := calls e @ [?call]\<rparr>"
  obtain e2 lastKey cberr where sf: "indexScan_scanFunc d ?e1 None (fst ?res) = (e2, lastKey, cberr)"
    by (metis prod_cases3)
  from indexScan_scanFunc_frame [OF sf]
  have f2: "indexScan_frame ?e1 e2" "rowCursor e2 = rowCursor e" "ranCursor e2 = ranCursor e"
    "calls e2 = calls ?e1"
    by simp_all
  have f1: "indexScan_frame e ?e1" by (simp add: indexScan_frame_def isLockCall_def)
  have f12: "indexScan_frame e e2" using f1 f2(1) by (rule indexScan_frame_trans)
  have "e' = e2 \<or> (\<exists>sk. e' = e2\<lparr>seekKey := sk\<rparr>)"
    using assms sf
    by (auto simp: indexScan_fillRowsFromRange_def Let_def split: option.splits)
  then show ?thesis using f12 f2(2) f2(3) by (auto simp: indexScan_frame_def)
qed

lemma indexScan_nextRange_frame: "indexScan_frame e (indexScan_nextRange e)"
  by (simp add: indexScan_frame_def indexScan_nextRange_def)

lemma indexScan_fillRows_body_frame:
  assumes "indexScan_fillRows_body d st e = (e', r)"
  shows "indexScan_frame e e' \<and> rowCursor e' = rowCursor e
         \<and> (rows e' = [] \<longrightarrow> ranCursor e' = ranCursor e + 1)"
proof (cases "indexScan_isUnique e \<and> IsPoint (kvRanges e ! ranCursor e)")
  case True
  obtain e1 r1 where p: "indexScan_fillRowsFromPoint d st e (kvRanges e ! ranCursor e) = (e1, r1)"
    by fastforce
  with assms True have e': "e' = indexScan_nextRange e1"
    by (simp add: indexScan_fillRows_body_def)
  from indexScan_fillRowsFromPoint_frame [OF p] indexScan_nextRange_frame [of e1]
  show ?thesis unfolding e'
    by (auto intro: indexScan_frame_trans simp: indexScan_nextRange_def)
next
  case False
  obtain e1 r1 where p: "indexScan_fillRowsFromRange d st e (kvRanges e ! ranCursor e) = (e1, r1)"
    by fastforce
  with assms False have e': "e' = (if rows e1 = [] then indexScan_nextRange e1 else e1)"
    by (simp add: indexScan_fillRows_body_def)
  from indexScan_fillRowsFromRange_frame [OF p] indexScan_nextRange_frame [of e1]
  show ?thesis unfolding e'
    by (auto intro: indexScan_frame_trans simp: indexScan_nextRange_def)
qed

function indexScan_fillRows ::
  "deps \<Rightarrow> store \<Rightarrow> indexScanExec \<Rightarrow> indexScanExec \<times> error option" where
  "indexScan_fillRows d st e =
     (if ranCursor e < length (kvRanges e) then
        (case indexScan_fillRows_body d st e of
           (e1, Some err) \<Rightarrow> (e1, Some err)
         | (e1, None) \<Rightarrow> if rows e1 \<noteq> [] then (e1, None) else indexScan_fillRows d st e1)
      else (e, None))"
  by pat_completeness auto
termination
proof (relation "measure (\<lambda>(d, st, e). length (kvRanges e) - ranCursor e)")
  show "wf (measure (\<lambda>(d, st, e). length (kvRanges e) - ranCursor e))" by simp
next
  fix d st e x1 e1 x2
  assume a: "ranCursor e < length (kvRanges e)"
    "(e1, x2) = indexScan_fillRows_body d st e" "x2 = None" "\<not> rows e1 \<noteq> []"
  from indexScan_fillRows_body_frame [OF a(2) [symmetric]] a(4)
  have "ranCursor e1 = ranCursor e + 1 \<and> kvRanges e1 = kvRanges e"
    by (simp add: indexScan_frame_def)
  with a(1)
  show "((d, st, e1), (d, st, e)) \<in> measure (\<lambda>(d, st, e). length (kvRanges e) - ranCursor e)"
    by simp
qed

declare indexScan_fillRows.simps [simp del]

lemma indexScan_fillRows_frame:
  "indexScan_fillRows d st e = (e', r) \<Longrightarrow> indexScan_frame e e' \<and> rowCursor e' = rowCursor e"
proof (induction d st e arbitrary: e' r rule: indexScan_fillRows.induct)
  case (1 d st e)
  show ?case
  proof (cases "ranCursor e < length (kvRanges e)")
    case False
    with "1.prems" show ?thesis
      by (simp add: indexScan_fillRows.simps [of d st e] indexScan_frame_refl)
  next
    case True
    obtain e1 r1 where b: "indexScan_fillRows_body d st e = (e1, r1)" by fastforce
    note fb = indexScan_fillRows_body_frame [OF b]
    show ?thesis
    proof (cases "r1 = None \<and> rows e1 = []")
      case False
      with "1.prems" True b have "e' = e1"
        by (auto simp: indexScan_fillRows.simps [of d st e] split: option.splits)
      with fb show ?thesis by simp
    next
      case rec: True
      with "1.prems" True b have "indexScan_fillRows d st e1 = (e', r)"
        by (simp add: indexScan_fillRows.simps [of d st e])
      from "1.IH" [OF True b [symmetric] _ _ this] rec
      have "indexScan_frame e1 e' \<and> rowCursor e' = rowCursor e1" by simp
      with fb show ?thesis by (auto intro: indexScan_frame_trans)
    qed
  qed
qed

function indexScan_Next_loop ::
  "deps \<Rightarrow> store \<Rightarrow> indexScanExec \<Rightarrow> indexScanExec \<times> (error + bytes list option)" where
  "indexScan_Next_loop d st e =
     (if rowCursor e < length (rows e)
      then (e\<lparr>rowCursor := rowCursor e + 1\<rparr>, Inr (Some (rows e ! rowCursor e)))
      else
        (case indexScan_fillRows d st (e\<lparr>rowCursor := 0, rows := []\<rparr>) of
           (e2, Some err) \<Rightarrow> (e2, Inl err)
         | (e2, None) \<Rightarrow>
             if rows e2 = [] then (e2, Inr None) else indexScan_Next_loop d st e2))"
  by pat_completeness auto
termination
proof (relation "measure (\<lambda>(d, st, e). if rowCursor e < length (rows e) then 0 else 1)")
  show "wf (measure (\<lambda>(d, st, e :: indexScanExec). if rowCursor e < length (rows e) then 0 else (1::nat)))"
    by simp
next
  fix d st e e2 y
  assume a: "\<not> rowCursor e < length (rows e)"
    "(e2, y) = indexScan_fillRows d st (e\<lparr>rowCursor := 0, rows := []\<rparr>)" "y = None"
    "rows e2 \<noteq> []"
  have "rowCursor e2 = 0"
    using indexScan_fillRows_frame [of d st "e\<lparr>rowCursor := 0, rows := []\<rparr>" e2 y] a(2)
    by simp
  then show "((d, st, e2), (d, st, e)) \<in>
      measure (\<lambda>(d, st, e). if rowCursor e < length (rows e) then 0 else 1)"
    using a(1) a(4) by simp
qed

declare indexScan_Next_loop.simps [simp del]

definition indexScan_Next ::
  "deps \<Rightarrow> store \<Rightarrow> indexScanExec \<Rightarrow> indexScanExec \<times> (error + bytes list option)" where
  "indexScan_Next d st e =
     (case indexScan_checkRangeLock st e of
        (e1, Some err) \<Rightarrow> (e1, Inl err)
      | (e1, None) \<Rightarrow> indexScan_Next_loop d st e1)"

definition indexScan_ResetCounts :: "indexScanExec \<Rightarrow> error + indexScanExec" where
  "indexScan_ResetCounts e =
     (case counts e of
        None \<Rightarrow> Inr e
      | Some cs \<Rightarrow>
          if ranCursor e < length cs
          then Inr (e\<lparr>start := ranCursor e, counts := Some (cs[ranCursor e := 0])\<rparr>)
          else Inl Panic)"

definition indexScan_Counts :: "indexScanExec \<Rightarrow> error + int list option" where
  "indexScan_Counts e =
     (case counts e of
        None \<Rightarrow> Inr None
      | Some cs \<Rightarrow>
          (case (if seekKey e = None \<or> ranCursor e = length cs then sliceOf cs (start e) (ranCursor e)
                 else sliceOf cs (start e) (ranCursor e + 1)) of
             Inl err \<Rightarrow> Inl err
           | Inr sl \<Rightarrow> Inr (Some sl)))"


subsection \<open>Executors and stores to run the model on\<close>

text \<open>
  A scan executor as the request handler builds it (the constructor is not in
  \<^verbatim>\<open>executor.go\<close>): Go's zero values for the cursors, the row buffer, \<open>seekKey\<close>
  and \<open>lockChecked\<close>, and an empty log.
\<close>

definition newTableScan ::
  "bool \<Rightarrow> columnInfo list \<Rightarrow> colIDs \<Rightarrow> keyRange list \<Rightarrow> nat \<Rightarrow> int list option \<Rightarrow> bool
     \<Rightarrow> tableScanExec" where
  "newTableScan desc cols cids ranges ts cnts ign =
     \<lparr>Desc = desc, kvRanges = ranges, startTS = ts, seekKey = None, start = 0,
      counts = cnts, ignoreLock = ign, lockChecked = False, rowCursor = 0, rows = [],
      calls = [], Columns = cols, colIDs = cids, rangeCursor = 0\<rparr>"

definition newIndexScan ::
  "bool \<Rightarrow> nat \<Rightarrow> int \<Rightarrow> bool option \<Rightarrow> keyRange list \<Rightarrow> nat \<Rightarrow> int list option \<Rightarrow> bool
     \<Rightarrow> indexScanExec" where
  "newIndexScan desc n pk uniq ranges ts cnts ign =
     \<lparr>Desc = desc, kvRanges = ranges, startTS = ts, seekKey = None, start = 0,
      counts = cnts, ignoreLock = ign, lockChecked = False, rowCursor = 0, rows = [],
      calls = [], colsLen = n, pkStatus = pk, Unique = uniq, ranCursor = 0\<rparr>"

text \<open>
  Modelled from the spec: the store behind \<^verbatim>\<open>Get\<close>, \<^verbatim>\<open>Scan\<close>, \<^verbatim>\<open>ReverseScan\<close> and
  \<^verbatim>\<open>CheckRangeLock\<close> is not among the sources. The model is the list \<open>kvs\<close> of the
  key-value pairs visible at the snapshot, in ascending key order, and a list of locks
  with their timestamps. "\<^verbatim>\<open>Get(key, ts)\<close>: MVCC point read; empty bytes mean not
  present at ts." "\<^verbatim>\<open>Scan(start, end, limit, ts, fn)\<close> / \<^verbatim>\<open>ReverseScan(start, end,
  limit, ts, fn)\<close>: call \<^verbatim>\<open>fn(key, value)\<close> in ascending/descending order up to limit
  times or range exhaustion", over the half-open range from \<open>start\<close> up to, and without,
  \<open>end\<close>. "\<^verbatim>\<open>CheckRangeLock(ts, start, end)\<close> returns \<^verbatim>\<open>Locked\<close> if any lock in the
  range blocks this snapshot"; "locks with \<^verbatim>\<open>start_ts \<le> snapshot_ts\<close> block reads".
\<close>

definition inKeyRange :: "bytes \<Rightarrow> bytes \<Rightarrow> bytes \<Rightarrow> bool" where
  "inKeyRange k lo hi = (bytesCompare lo k \<le> 0 \<and> bytesCompare k hi < 0)"

definition kvStore :: "(bytes \<times> bytes) list \<Rightarrow> (bytes \<times> nat) list \<Rightarrow> store" where
  "kvStore kvs locks =
     \<lparr>CheckRangeLock =
        (\<lambda>ts lo hi. case find (\<lambda>(k, lts). inKeyRange k lo hi \<and> lts \<le> ts) locks of
                       None \<Rightarrow> None
                     | Some (k, lts) \<Rightarrow> Some (Locked lts)),
      Get = (\<lambda>key ts. Inr (case map_of kvs key of None \<Rightarrow> [] | Some v \<Rightarrow> v)),
      Scan = (\<lambda>lo hi limit ts.
                (take limit (filter (\<lambda>(k, v). v \<noteq> [] \<and> inKeyRange k lo hi) kvs), None)),
      ReverseScan = (\<lambda>lo hi limit ts.
                (take limit (rev (filter (\<lambda>(k, v). v \<noteq> [] \<and> inKeyRange k lo hi) kvs)), None))\<rparr>"

section \<open>Properties of the scan executors\<close>

lemma tableScan_Next_loop_exhausted:
  "\<not> rowCursor e < length (rows e) \<Longrightarrow>
   tableScan_Next_loop d st e =
     (case tableScan_fillRows d st (e\<lparr>rowCursor := 0, rows := []\<rparr>) of
        (e2, Some err) \<Rightarrow> (e2, Inl err)
      | (e2, None) \<Rightarrow> if rows e2 = [] then (e2, Inr None) else tableScan_Next_loop d st e2)"
  by (subst tableScan_Next_loop.simps) (simp add: tableScan_getOneRow_def tableScan_refill_def)

lemma tableScan_checkRangeLock_done:
  "ignoreLock e \<or> lockChecked e \<Longrightarrow> tableScan_checkRangeLock st e = (e, None)"
  by (auto simp: tableScan_checkRangeLock_def)

lemma tableScan_getOneRow_frame:
  "tableScan_getOneRow e = (e', r) \<Longrightarrow> tableScan_frame e e'"
  by (auto simp: tableScan_getOneRow_def tableScan_frame_def split: if_splits)

lemma tableScan_refill_frame:
  assumes "tableScan_refill d st e = (e', r)"
  shows "tableScan_frame e e' \<and> rowCursor e' = 0"
proof -
  have "tableScan_frame e (e\<lparr>rowCursor := 0, rows := []\<rparr>)"
    by (simp add: tableScan_frame_def)
  moreover from assms tableScan_fillRows_frame [of d st "e\<lparr>rowCursor := 0, rows := []\<rparr>" e' r]
  have "tableScan_frame (e\<lparr>rowCursor := 0, rows := []\<rparr>) e' \<and> rowCursor e' = 0"
    by (simp add: tableScan_refill_def)
  ultimately show ?thesis by (auto intro: tableScan_frame_trans)
qed

lemma tableScan_Next_loop_frame:
  "tableScan_Next_loop d st e = (e', r) \<Longrightarrow> tableScan_frame e e'"
proof (induction d st e arbitrary: e' r rule: tableScan_Next_loop.induct)
  case (1 d st e)
  obtain e1 v where g: "tableScan_getOneRow e = (e1, v)" by fastforce
  note f1 = tableScan_getOneRow_frame [OF g]
  show ?case
  proof (cases v)
    case (Some row)
    with "1.prems" g have "e' = e1" by (simp add: tableScan_Next_loop.simps [of d st e])
    with f1 show ?thesis by simp
  next
    case None
    obtain e2 y where rf: "tableScan_refill d st e1 = (e2, y)" by fastforce
    from tableScan_refill_frame [OF rf] f1 have f2: "tableScan_frame e e2"
      by (auto intro: tableScan_frame_trans)
    show ?thesis
    proof (cases "y = None \<and> rows e2 \<noteq> []")
      case False
      with "1.prems" g None rf have "e' = e2"
        by (auto simp: tableScan_Next_loop.simps [of d st e] split: option.splits)
      with f2 show ?thesis by simp
    next
      case True
      with "1.prems" g None rf have "tableScan_Next_loop d st e2 = (e', r)"
        by (simp add: tableScan_Next_loop.simps [of d st e])
      from "1.IH" [OF g [symmetric] None rf [symmetric] _ _ this] True
      have "tableScan_frame e2 e'" by simp
      with f2 show ?thesis by (rule tableScan_frame_trans)
    qed
  qed
qed




lemma indexScan_checkRangeLock_done:
  "ignoreLock e \<or> lockChecked e \<Longrightarrow> indexScan_checkRangeLock st e = (e, None)"
  by (auto simp: indexScan_checkRangeLock_def)

lemma indexScan_Next_loop_frame:
  "indexScan_Next_loop d st e = (e', r) \<Longrightarrow> indexScan_frame e e'"
proof (induction d st e arbitrary: e' r rule: indexScan_Next_loop.induct)
  case (1 d st e)
  show ?case
  proof (cases "rowCursor e < length (rows e)")
    case True
    with "1.prems" have "e' = e\<lparr>rowCursor := rowCursor e + 1\<rparr>"
      by (simp add: indexScan_Next_loop.simps [of d st e])
    then show ?thesis by (simp add: indexScan_frame_def)
  next
    case False
    let ?e0 = "e\<lparr>rowCursor := 0, rows := []\<rparr>"
    obtain e2 y where rf: "indexScan_fillRows d st ?e0 = (e2, y)" by fastforce
    have "indexScan_frame e ?e0" by (simp add: indexScan_frame_def)
    with indexScan_fillRows_frame [OF rf] have f2: "indexScan_frame e e2"
      by (auto intro: indexScan_frame_trans)
    show ?thesis
    proof (cases "y = None \<and> rows e2 \<noteq> []")
      case nrec: False
      with "1.prems" False rf have "e' = e2"
        by (auto simp: indexScan_Next_loop.simps [of d st e] split: option.splits)
      with f2 show ?thesis by simp
    next
      case True
      with "1.prems" False rf have "indexScan_Next_loop d st e2 = (e', r)"
        by (simp add: indexScan_Next_loop.simps [of d st e])
      from "1.IH" [OF False rf [symmetric] _ _ this] True
      have "indexScan_frame e2 e'" by simp
      with f2 show ?thesis by (rule indexScan_frame_trans)
    qed
  qed
qed



lemma indexScan_scanFunc_calls:
  "calls (fst (indexScan_scanFunc d e lk kvs)) = calls e"
  using indexScan_scanFunc_frame [of d e lk kvs]
  by (cases "indexScan_scanFunc d e lk kvs") simp

lemma indexScan_fillRowsFromPoint_calls:
  "calls (fst (indexScan_fillRowsFromPoint d st e rng)) = calls e @ [CallGet (StartKey rng) (startTS e)]"
  by (simp add: indexScan_fillRowsFromPoint_def Let_def split: sum.splits)

lemma indexScan_fillRowsFromRange_calls:
  "calls (fst (indexScan_fillRowsFromRange d st e rng)) =
     calls e @ [if Desc e
                then CallReverseScan (StartKey rng)
                       (case seekKey e of None \<Rightarrow> EndKey rng | Some k \<Rightarrow> k)
                       scanLimit (startTS e)
                else CallScan (case seekKey e of None \<Rightarrow> StartKey rng | Some k \<Rightarrow> k)
                       (EndKey rng) scanLimit (startTS e)]"
proof -
  let ?sk = "case seekKey e of None \<Rightarrow> if Desc e then EndKey rng else StartKey rng | Some k \<Rightarrow> k"
  let ?call = "if Desc e then CallReverseScan (StartKey rng) ?sk scanLimit (startTS e)
               else CallScan ?sk (EndKey rng) scanLimit (startTS e)"
  let ?res = "if Desc e then ReverseScan st (StartKey rng) ?sk scanLimit (startTS e)
              else Scan st ?sk (EndKey rng) scanLimit (startTS e)"
  let ?e1 = "e\<lparr>seekKey := Some ?sk, calls := calls e @ [?call]\<rparr>"
  obtain e2 lastKey cberr where sf: "indexScan_scanFunc d ?e1 None (fst ?res) = (e2, lastKey, cberr)"
    by (metis prod_cases3)
  have c2: "calls e2 = calls e @ [?call]"
    using indexScan_scanFunc_calls [of d ?e1 None "fst ?res"] sf by simp
  have "calls (fst (indexScan_fillRowsFromRange d st e rng)) = calls e2"
    using sf by (auto simp: indexScan_fillRowsFromRange_def Let_def split: option.splits)
  with c2 show ?thesis by (auto split: option.splits)
qed

































lemmas tableScan_eval =
  tableScan_Next_def tableScan_checkRangeLock_def newTableScan_def
  tableScan_Next_loop.simps tableScan_getOneRow_def tableScan_refill_def
  tableScan_fillRows.simps tableScan_fillRows_body_def IsPoint_def PrefixNext_def
  tableScan_fillRowsFromPoint_def tableScan_nextRange_def kvStore_def testDeps_def
  getRowData_def BigEndian_Uint64_def fillColumn_def hasColVal_def inKeyRange_def

lemmas indexScan_eval =
  indexScan_Next_def indexScan_checkRangeLock_def newIndexScan_def indexScan_Next_loop.simps
  indexScan_fillRows.simps indexScan_fillRows_body_def indexScan_isUnique_def IsPoint_def
  PrefixNext_def indexScan_fillRowsFromPoint_def indexScan_fillRowsFromRange_def
  indexScan_nextRange_def kvStore_def inKeyRange_def scanLimit_def testDeps_def
  decodeIndexKV_def decodeHandle_def pkColIsSigned_def pkColNotExists_def Let_def




subsection \<open>The point path of the index scan\<close>

definition indexScan_decoded :: "deps \<Rightarrow> indexScanExec \<Rightarrow> (bytes \<times> bytes) list \<Rightarrow> bytes list list" where
  "indexScan_decoded d e kvs =
     map (\<lambda>(key, val). projr (decodeIndexKV d (colsLen e) (pkStatus e) key val)) kvs"

lemma indexScan_scanFunc_rows:
  "indexScan_scanFunc d e lk kvs = (e2, lk', None) \<Longrightarrow>
     rows e2 = rows e @ indexScan_decoded d e kvs"
proof (induction kvs arbitrary: e lk)
  case Nil
  then show ?case by (simp add: indexScan_decoded_def)
next
  case (Cons kv kvs)
  obtain key val where kv: "kv = (key, val)" by (cases kv)
  show ?case
  proof (cases "decodeIndexKV d (colsLen e) (pkStatus e) key val")
    case (Inl err)
    with Cons.prems kv show ?thesis by simp
  next
    case (Inr row)
    with Cons.prems kv
    have "indexScan_scanFunc d (e\<lparr>rows := rows e @ [row]\<rparr>) (Some key) kvs = (e2, lk', None)"
      by simp
    from Cons.IH [OF this] kv Inr show ?thesis by (simp add: indexScan_decoded_def)
  qed
qed

lemma indexScan_fillRowsFromPoint_rows:
  "length (rows (fst (indexScan_fillRowsFromPoint d st e rng))) \<le> length (rows e) + 1"
  by (simp add: indexScan_fillRowsFromPoint_def Let_def split: sum.splits)

lemma indexScan_fillRowsFromRange_rows:
  assumes "indexScan_fillRowsFromRange d st e rng = (e', None)"
  shows "rows e' = rows e @ indexScan_decoded d e
           (fst (if Desc e
                 then ReverseScan st (StartKey rng)
                        (case seekKey e of None \<Rightarrow> EndKey rng | Some k \<Rightarrow> k)
                        scanLimit (startTS e)
                 else Scan st (case seekKey e of None \<Rightarrow> StartKey rng | Some k \<Rightarrow> k)
                        (EndKey rng) scanLimit (startTS e)))"
proof -
  let ?sk = "case seekKey e of None \<Rightarrow> if Desc e then EndKey rng else StartKey rng | Some k \<Rightarrow> k"
  let ?call = "if Desc e then CallReverseScan (StartKey rng) ?sk scanLimit (startTS e)
               else CallScan ?sk (EndKey rng) scanLimit (startTS e)"
  let ?res = "if Desc e then ReverseScan st (StartKey rng) ?sk scanLimit (startTS e)
              else Scan st ?sk (EndKey rng) scanLimit (startTS e)"
  let ?e1 = "e\<lparr>seekKey := Some ?sk, calls := calls e @ [?call]\<rparr>"
  obtain e2 lastKey cberr where sf: "indexScan_scanFunc d ?e1 None (fst ?res) = (e2, lastKey, cberr)"
    by (metis prod_cases3)
  from assms sf have cb: "cberr = None"
    by (auto simp: indexScan_fillRowsFromRange_def Let_def split: option.splits)
  from indexScan_scanFunc_rows [OF sf [unfolded cb]]
  have r2: "rows e2 = rows e @ indexScan_decoded d e (fst ?res)"
    by (simp add: indexScan_decoded_def)
  have "rows e' = rows e2"
    using assms sf by (auto simp: indexScan_fillRowsFromRange_def Let_def split: option.splits)
  with r2 show ?thesis by (auto split: option.splits)
qed

lemma indexScan_scan_turn_rows:
  assumes nopoint: "\<not> (indexScan_isUnique e \<and> IsPoint (kvRanges e ! ranCursor e))"
      and ok: "indexScan_fillRows_body d st e = (e', None)"
  shows "rows e' = rows e @ indexScan_decoded d e
           (fst (if Desc e
                 then ReverseScan st (StartKey (kvRanges e ! ranCursor e))
                        (case seekKey e of None \<Rightarrow> EndKey (kvRanges e ! ranCursor e) | Some k \<Rightarrow> k)
                        scanLimit (startTS e)
                 else Scan st
                        (case seekKey e of None \<Rightarrow> StartKey (kvRanges e ! ranCursor e) | Some k \<Rightarrow> k)
                        (EndKey (kvRanges e ! ranCursor e)) scanLimit (startTS e)))"
proof -
  let ?rng = "kvRanges e ! ranCursor e"
  obtain e1 r where p: "indexScan_fillRowsFromRange d st e ?rng = (e1, r)" by fastforce
  with nopoint ok have e': "e' = (if rows e1 = [] then indexScan_nextRange e1 else e1)"
    and r: "r = None"
    by (auto simp: indexScan_fillRows_body_def)
  from e' have "rows e' = rows e1" by (simp add: indexScan_nextRange_def)
  with indexScan_fillRowsFromRange_rows [OF p [unfolded r]] show ?thesis by simp
qed

lemma indexScan_point_turn_rows:
  assumes "indexScan_isUnique e \<and> IsPoint (kvRanges e ! ranCursor e)"
  shows "length (rows (fst (indexScan_fillRows_body d st e))) \<le> length (rows e) + 1"
proof -
  let ?rng = "kvRanges e ! ranCursor e"
  obtain e1 r where p: "indexScan_fillRowsFromPoint d st e ?rng = (e1, r)" by fastforce
  with assms have "rows (fst (indexScan_fillRows_body d st e)) = rows e1"
    by (simp add: indexScan_fillRows_body_def indexScan_nextRange_def)
  with indexScan_fillRowsFromPoint_rows [of d st e ?rng] p show ?thesis by simp
qed

definition sharedPrefix :: indexScanExec where
  "sharedPrefix =
     newIndexScan False 1 pkColIsSigned (Some False) [\<lparr>StartKey = [5], EndKey = [6]\<rparr>] 5 None True"

definition sharedPrefixStore :: store where
  "sharedPrefixStore = kvStore [([5, 1], [1]), ([5, 2], [1])] []"

definition uniquePoint :: indexScanExec where
  "uniquePoint =
     newIndexScan False 1 pkColIsSigned (Some True) [\<lparr>StartKey = [5], EndKey = [6]\<rparr>] 5 None True"

definition uniquePointStore :: store where
  "uniquePointStore = kvStore [([5], [0, 0, 0, 0, 0, 0, 0, 42])] []"

text \<open>
  Claim C7. One turn of the loop of \<^verbatim>\<open>indexScanExec.fillRows\<close>, for the range at the
  cursor, makes exactly one call to the store: the single \<^verbatim>\<open>Get\<close> of the start key
  when the index is unique and the range is a point (its end is \<open>PrefixNext\<close> of its
  start), and otherwise a \<^verbatim>\<open>Scan\<close> (a \<^verbatim>\<open>ReverseScan\<close> when descending) of at most
  \<open>scanLimit\<close> pairs; so the call is a \<^verbatim>\<open>Get\<close> iff the index is unique and the range
  is a point. The point path adds at most one row to the buffer. The scan path, when
  it returns no error, adds one decoded row for each pair that the scan delivers, in
  order. So a point range of an index that is not unique yields as many rows as the
  store holds keys with that prefix: over a store with two such keys, a new executor
  returns two rows from its first two calls of \<open>Next\<close>, after one \<^verbatim>\<open>Scan\<close>.
\<close>

theorem indexScan_point_path:
  "(ranCursor e < length (kvRanges e) \<longrightarrow>
      calls (fst (indexScan_fillRows_body d st e)) =
        calls e @
          [if indexScan_isUnique e \<and> IsPoint (kvRanges e ! ranCursor e)
           then CallGet (StartKey (kvRanges e ! ranCursor e)) (startTS e)
           else if Desc e
           then CallReverseScan (StartKey (kvRanges e ! ranCursor e))
                  (case seekKey e of None \<Rightarrow> EndKey (kvRanges e ! ranCursor e) | Some k \<Rightarrow> k)
                  scanLimit (startTS e)
           else CallScan
                  (case seekKey e of None \<Rightarrow> StartKey (kvRanges e ! ranCursor e) | Some k \<Rightarrow> k)
                  (EndKey (kvRanges e ! ranCursor e)) scanLimit (startTS e)]
      \<and> ((\<exists>k ts. calls (fst (indexScan_fillRows_body d st e)) = calls e @ [CallGet k ts])
           = (indexScan_isUnique e \<and> IsPoint (kvRanges e ! ranCursor e))))
   \<and> (indexScan_isUnique e \<and> IsPoint (kvRanges e ! ranCursor e) \<longrightarrow>
        length (rows (fst (indexScan_fillRows_body d st e))) \<le> length (rows e) + 1)
   \<and> (\<not> (indexScan_isUnique e \<and> IsPoint (kvRanges e ! ranCursor e))
        \<and> indexScan_fillRows_body d st e = (e', None) \<longrightarrow>
        rows e' = rows e @ indexScan_decoded d e
           (fst (if Desc e
                 then ReverseScan st (StartKey (kvRanges e ! ranCursor e))
                        (case seekKey e of None \<Rightarrow> EndKey (kvRanges e ! ranCursor e) | Some k \<Rightarrow> k)
                        scanLimit (startTS e)
                 else Scan st
                        (case seekKey e of None \<Rightarrow> StartKey (kvRanges e ! ranCursor e) | Some k \<Rightarrow> k)
                        (EndKey (kvRanges e ! ranCursor e)) scanLimit (startTS e))))
   \<and> (\<not> indexScan_isUnique sharedPrefix \<and> IsPoint (kvRanges sharedPrefix ! ranCursor sharedPrefix)
        \<and> rows sharedPrefix = []
        \<and> indexScan_Next testDeps sharedPrefixStore sharedPrefix =
            (sharedPrefix\<lparr>seekKey := Some [5, 3], rowCursor := 1, rows := [[[5], [1]], [[5], [2]]],
               calls := [CallScan [5] [6] 128 5]\<rparr>,
             Inr (Some [[5], [1]]))
        \<and> indexScan_Next testDeps sharedPrefixStore
            (sharedPrefix\<lparr>seekKey := Some [5, 3], rowCursor := 1, rows := [[[5], [1]], [[5], [2]]],
               calls := [CallScan [5] [6] 128 5]\<rparr>) =
            (sharedPrefix\<lparr>seekKey := Some [5, 3], rowCursor := 2, rows := [[[5], [1]], [[5], [2]]],
               calls := [CallScan [5] [6] 128 5]\<rparr>,
             Inr (Some [[5], [2]])))"
proof (intro conjI impI)
  let ?rng = "kvRanges e ! ranCursor e"
  have c: "calls (fst (indexScan_fillRows_body d st e)) =
        calls e @
          [if indexScan_isUnique e \<and> IsPoint ?rng
           then CallGet (StartKey ?rng) (startTS e)
           else if Desc e
           then CallReverseScan (StartKey ?rng)
                  (case seekKey e of None \<Rightarrow> EndKey ?rng | Some k \<Rightarrow> k)
                  scanLimit (startTS e)
           else CallScan
                  (case seekKey e of None \<Rightarrow> StartKey ?rng | Some k \<Rightarrow> k)
                  (EndKey ?rng) scanLimit (startTS e)]"
  proof (cases "indexScan_isUnique e \<and> IsPoint ?rng")
    case True
    then show ?thesis
      using indexScan_fillRowsFromPoint_calls [of d st e ?rng]
      by (auto simp: indexScan_fillRows_body_def indexScan_nextRange_def split: prod.splits)
  next
    case False
    then show ?thesis
      using indexScan_fillRowsFromRange_calls [of d st e ?rng]
      by (auto simp: indexScan_fillRows_body_def indexScan_nextRange_def split: prod.splits)
  qed
  show "calls (fst (indexScan_fillRows_body d st e)) =
        calls e @
          [if indexScan_isUnique e \<and> IsPoint ?rng
           then CallGet (StartKey ?rng) (startTS e)
           else if Desc e
           then CallReverseScan (StartKey ?rng)
                  (case seekKey e of None \<Rightarrow> EndKey ?rng | Some k \<Rightarrow> k)
                  scanLimit (startTS e)
           else CallScan
                  (case seekKey e of None \<Rightarrow> StartKey ?rng | Some k \<Rightarrow> k)
                  (EndKey ?rng) scanLimit (startTS e)]"
    by (rule c)
  show "(\<exists>k ts. calls (fst (indexScan_fillRows_body d st e)) = calls e @ [CallGet k ts])
           = (indexScan_isUnique e \<and> IsPoint ?rng)"
    unfolding c by auto
next
  assume "indexScan_isUnique e \<and> IsPoint (kvRanges e ! ranCursor e)"
  then show "length (rows (fst (indexScan_fillRows_body d st e))) \<le> length (rows e) + 1"
    by (rule indexScan_point_turn_rows)
next
  assume a: "\<not> (indexScan_isUnique e \<and> IsPoint (kvRanges e ! ranCursor e))
        \<and> indexScan_fillRows_body d st e = (e', None)"
  then have n: "\<not> (indexScan_isUnique e \<and> IsPoint (kvRanges e ! ranCursor e))"
    and b: "indexScan_fillRows_body d st e = (e', None)" by simp_all
  from n b show "rows e' = rows e @ indexScan_decoded d e
           (fst (if Desc e
                 then ReverseScan st (StartKey (kvRanges e ! ranCursor e))
                        (case seekKey e of None \<Rightarrow> EndKey (kvRanges e ! ranCursor e) | Some k \<Rightarrow> k)
                        scanLimit (startTS e)
                 else Scan st
                        (case seekKey e of None \<Rightarrow> StartKey (kvRanges e ! ranCursor e) | Some k \<Rightarrow> k)
                        (EndKey (kvRanges e ! ranCursor e)) scanLimit (startTS e)))"
    by (rule indexScan_scan_turn_rows)
next
  show "\<not> indexScan_isUnique sharedPrefix"
    by (simp add: sharedPrefix_def newIndexScan_def indexScan_isUnique_def)
  show "IsPoint (kvRanges sharedPrefix ! ranCursor sharedPrefix)"
    by (simp add: sharedPrefix_def newIndexScan_def IsPoint_def PrefixNext_def)
  show "rows sharedPrefix = []" by (simp add: sharedPrefix_def newIndexScan_def)
  show "indexScan_Next testDeps sharedPrefixStore sharedPrefix =
            (sharedPrefix\<lparr>seekKey := Some [5, 3], rowCursor := 1, rows := [[[5], [1]], [[5], [2]]],
               calls := [CallScan [5] [6] 128 5]\<rparr>,
             Inr (Some [[5], [1]]))"
    by (simp add: sharedPrefix_def sharedPrefixStore_def indexScan_eval)
  show "indexScan_Next testDeps sharedPrefixStore
            (sharedPrefix\<lparr>seekKey := Some [5, 3], rowCursor := 1, rows := [[[5], [1]], [[5], [2]]],
               calls := [CallScan [5] [6] 128 5]\<rparr>) =
            (sharedPrefix\<lparr>seekKey := Some [5, 3], rowCursor := 2, rows := [[[5], [1]], [[5], [2]]],
               calls := [CallScan [5] [6] 128 5]\<rparr>,
             Inr (Some [[5], [2]]))"
    by (simp add: sharedPrefix_def sharedPrefixStore_def indexScan_eval)
qed

theorem indexScan_point_path_witness:
  "calls (fst (indexScan_fillRows_body testDeps uniquePointStore uniquePoint)) = [CallGet [5] 5]
   \<and> length (rows (fst (indexScan_fillRows_body testDeps uniquePointStore uniquePoint))) \<le> 1
   \<and> indexScan_fillRows_body testDeps sharedPrefixStore sharedPrefix =
       (sharedPrefix\<lparr>seekKey := Some [5, 3], rows := [[[5], [1]], [[5], [2]]],
          calls := [CallScan [5] [6] 128 5]\<rparr>, None)
   \<and> rows (sharedPrefix\<lparr>seekKey := Some [5, 3], rows := [[[5], [1]], [[5], [2]]],
          calls := [CallScan [5] [6] 128 5]\<rparr>) =
       indexScan_decoded testDeps sharedPrefix [([5, 1], [1]), ([5, 2], [1])]"
proof -
  let ?s' = "sharedPrefix\<lparr>seekKey := Some [5, 3], rows := [[[5], [1]], [[5], [2]]],
          calls := [CallScan [5] [6] 128 5]\<rparr>"
  have u: "ranCursor uniquePoint < length (kvRanges uniquePoint)"
    "indexScan_isUnique uniquePoint \<and> IsPoint (kvRanges uniquePoint ! ranCursor uniquePoint)"
    "calls uniquePoint = []" "rows uniquePoint = []" "startTS uniquePoint = 5"
    "StartKey (kvRanges uniquePoint ! ranCursor uniquePoint) = [5]"
    by (simp_all add: uniquePoint_def newIndexScan_def indexScan_isUnique_def IsPoint_def
        PrefixNext_def)
  have s: "\<not> (indexScan_isUnique sharedPrefix
               \<and> IsPoint (kvRanges sharedPrefix ! ranCursor sharedPrefix))"
    "rows sharedPrefix = []" "Desc sharedPrefix = False" "seekKey sharedPrefix = None"
    "kvRanges sharedPrefix ! ranCursor sharedPrefix = \<lparr>StartKey = [5], EndKey = [6]\<rparr>"
    "startTS sharedPrefix = 5"
    by (simp_all add: sharedPrefix_def newIndexScan_def indexScan_isUnique_def)
  have b: "indexScan_fillRows_body testDeps sharedPrefixStore sharedPrefix = (?s', None)"
    by (simp add: sharedPrefix_def sharedPrefixStore_def indexScan_eval)
  have sc: "fst (Scan sharedPrefixStore [5] [6] scanLimit 5) = [([5, 1], [1]), ([5, 2], [1])]"
    by (simp add: sharedPrefixStore_def kvStore_def inKeyRange_def scanLimit_def)
  from indexScan_point_path [where e = uniquePoint and d = testDeps and st = uniquePointStore] u
  have a1: "calls (fst (indexScan_fillRows_body testDeps uniquePointStore uniquePoint)) = [CallGet [5] 5]"
    and a2: "length (rows (fst (indexScan_fillRows_body testDeps uniquePointStore uniquePoint))) \<le> 1"
    by simp_all
  from indexScan_point_path
    [where e = sharedPrefix and e' = ?s' and d = testDeps and st = sharedPrefixStore] s(1) b
  have "rows ?s' = rows sharedPrefix @ indexScan_decoded testDeps sharedPrefix
           (fst (if Desc sharedPrefix
                 then ReverseScan sharedPrefixStore
                        (StartKey (kvRanges sharedPrefix ! ranCursor sharedPrefix))
                        (case seekKey sharedPrefix of
                           None \<Rightarrow> EndKey (kvRanges sharedPrefix ! ranCursor sharedPrefix)
                         | Some k \<Rightarrow> k)
                        scanLimit (startTS sharedPrefix)
                 else Scan sharedPrefixStore
                        (case seekKey sharedPrefix of
                           None \<Rightarrow> StartKey (kvRanges sharedPrefix ! ranCursor sharedPrefix)
                         | Some k \<Rightarrow> k)
                        (EndKey (kvRanges sharedPrefix ! ranCursor sharedPrefix)) scanLimit
                        (startTS sharedPrefix)))"
    by blast
  then have a3: "rows ?s' = indexScan_decoded testDeps sharedPrefix [([5, 1], [1]), ([5, 2], [1])]"
    by (simp only: s sc keyRange.simps append_Nil if_False option.simps)
  from a1 a2 b a3 show ?thesis by blast
qed

subsection \<open>The lock check\<close>

text \<open>
  A range passes the lock check when \<^verbatim>\<open>CheckRangeLock\<close> reports no lock for it;
  \<open>lockCalls\<close> is one lock check for each range of a list, in the order of the list.
\<close>

definition lockPasses :: "store \<Rightarrow> nat \<Rightarrow> keyRange \<Rightarrow> bool" where
  "lockPasses st ts rng = (CheckRangeLock st ts (StartKey rng) (EndKey rng) = None)"

definition lockCalls :: "nat \<Rightarrow> keyRange list \<Rightarrow> storeCall list" where
  "lockCalls ts rngs = map (\<lambda>rng. CallCheckRangeLock ts (StartKey rng) (EndKey rng)) rngs"

lemma checkRanges_all_pass:
  "find (\<lambda>rng. \<not> lockPasses st ts rng) rngs = None \<Longrightarrow>
     checkRanges st ts rngs = (lockCalls ts rngs, None)"
  by (induction rngs) (auto simp: lockPasses_def lockCalls_def split: if_splits)

lemma checkRanges_conflict:
  "find (\<lambda>rng. \<not> lockPasses st ts rng) rngs = Some rng \<Longrightarrow>
     \<exists>err. CheckRangeLock st ts (StartKey rng) (EndKey rng) = Some err
       \<and> checkRanges st ts rngs =
            (lockCalls ts (takeWhile (lockPasses st ts) rngs @ [rng]), Some err)"
  by (induction rngs) (auto simp: lockPasses_def lockCalls_def split: if_splits)

lemma isLockCall_lockCalls: "filter isLockCall (lockCalls ts rngs) = lockCalls ts rngs"
  by (induction rngs) (simp_all add: lockCalls_def isLockCall_def)

lemma filter_no_lock: "\<forall>c \<in> set cs. \<not> isLockCall c \<Longrightarrow> filter isLockCall cs = []"
  by (induction cs) simp_all

lemma tableScan_lock_once:
  "(ignoreLock e \<or> lockChecked e \<longrightarrow>
      filter isLockCall (calls (fst (tableScan_Next d st e))) = filter isLockCall (calls e))
   \<and> (\<not> ignoreLock e \<and> \<not> lockChecked e \<longrightarrow>
        (case find (\<lambda>rng. \<not> lockPasses st (startTS e) rng) (kvRanges e) of
           Some rng \<Rightarrow>
             (\<exists>err. CheckRangeLock st (startTS e) (StartKey rng) (EndKey rng) = Some err
                \<and> tableScan_Next d st e =
                    (e\<lparr>calls := calls e @
                         lockCalls (startTS e)
                           (takeWhile (lockPasses st (startTS e)) (kvRanges e) @ [rng])\<rparr>,
                     Inl err))
         | None \<Rightarrow>
             lockChecked (fst (tableScan_Next d st e))
             \<and> (\<exists>cs. calls (fst (tableScan_Next d st e)) =
                        calls e @ lockCalls (startTS e) (kvRanges e) @ cs
                      \<and> (\<forall>c \<in> set cs. \<not> isLockCall c))))
   \<and> (\<forall>row. \<not> ignoreLock e \<and> snd (tableScan_Next d st e) = Inr (Some row) \<longrightarrow>
          lockChecked (fst (tableScan_Next d st e)))"
proof (intro conjI impI allI)
  assume over: "ignoreLock e \<or> lockChecked e"
  obtain e2 r2 where l: "tableScan_Next_loop d st e = (e2, r2)" by fastforce
  from tableScan_Next_loop_frame [OF l] obtain cs where
    "calls e2 = calls e @ cs" "\<forall>c \<in> set cs. \<not> isLockCall c"
    by (auto simp: tableScan_frame_def)
  then show "filter isLockCall (calls (fst (tableScan_Next d st e))) = filter isLockCall (calls e)"
    using over l by (simp add: tableScan_Next_def tableScan_checkRangeLock_done filter_no_lock)
next
  assume fresh: "\<not> ignoreLock e \<and> \<not> lockChecked e"
  show "case find (\<lambda>rng. \<not> lockPasses st (startTS e) rng) (kvRanges e) of
           Some rng \<Rightarrow>
             (\<exists>err. CheckRangeLock st (startTS e) (StartKey rng) (EndKey rng) = Some err
                \<and> tableScan_Next d st e =
                    (e\<lparr>calls := calls e @
                         lockCalls (startTS e)
                           (takeWhile (lockPasses st (startTS e)) (kvRanges e) @ [rng])\<rparr>,
                     Inl err))
         | None \<Rightarrow>
             lockChecked (fst (tableScan_Next d st e))
             \<and> (\<exists>cs. calls (fst (tableScan_Next d st e)) =
                        calls e @ lockCalls (startTS e) (kvRanges e) @ cs
                      \<and> (\<forall>c \<in> set cs. \<not> isLockCall c))"
  proof (cases "find (\<lambda>rng. \<not> lockPasses st (startTS e) rng) (kvRanges e)")
    case (Some rng)
    from checkRanges_conflict [OF Some] fresh Some show ?thesis
      by (auto simp: tableScan_Next_def tableScan_checkRangeLock_def)
  next
    case None
    let ?e1 = "e\<lparr>calls := calls e @ lockCalls (startTS e) (kvRanges e), lockChecked := True\<rparr>"
    from checkRanges_all_pass [OF None] fresh
    have n: "tableScan_Next d st e = tableScan_Next_loop d st ?e1"
      by (simp add: tableScan_Next_def tableScan_checkRangeLock_def)
    obtain e2 r2 where l: "tableScan_Next_loop d st ?e1 = (e2, r2)" by fastforce
    from tableScan_Next_loop_frame [OF l] obtain cs where
      "calls e2 = calls ?e1 @ cs" "\<forall>c \<in> set cs. \<not> isLockCall c" "lockChecked e2"
      by (auto simp: tableScan_frame_def)
    with None n l show ?thesis by auto
  qed
next
  fix row
  assume a: "\<not> ignoreLock e \<and> snd (tableScan_Next d st e) = Inr (Some row)"
  obtain e1 r1 where c: "tableScan_checkRangeLock st e = (e1, r1)" by fastforce
  with a have r1: "r1 = None" by (cases r1) (simp_all add: tableScan_Next_def)
  from c r1 a have lc: "lockChecked e1"
    by (auto simp: tableScan_checkRangeLock_def split: if_splits prod.splits option.splits)
  obtain e2 r2 where l: "tableScan_Next_loop d st e1 = (e2, r2)" by fastforce
  from tableScan_Next_loop_frame [OF l] lc have "lockChecked e2"
    by (simp add: tableScan_frame_def)
  with c r1 l show "lockChecked (fst (tableScan_Next d st e))" by (simp add: tableScan_Next_def)
qed

lemma indexScan_lock_once:
  "(ignoreLock e \<or> lockChecked e \<longrightarrow>
      filter isLockCall (calls (fst (indexScan_Next d st e))) = filter isLockCall (calls e))
   \<and> (\<not> ignoreLock e \<and> \<not> lockChecked e \<longrightarrow>
        (case find (\<lambda>rng. \<not> lockPasses st (startTS e) rng) (kvRanges e) of
           Some rng \<Rightarrow>
             (\<exists>err. CheckRangeLock st (startTS e) (StartKey rng) (EndKey rng) = Some err
                \<and> indexScan_Next d st e =
                    (e\<lparr>calls := calls e @
                         lockCalls (startTS e)
                           (takeWhile (lockPasses st (startTS e)) (kvRanges e) @ [rng])\<rparr>,
                     Inl err))
         | None \<Rightarrow>
             lockChecked (fst (indexScan_Next d st e))
             \<and> (\<exists>cs. calls (fst (indexScan_Next d st e)) =
                        calls e @ lockCalls (startTS e) (kvRanges e) @ cs
                      \<and> (\<forall>c \<in> set cs. \<not> isLockCall c))))
   \<and> (\<forall>row. \<not> ignoreLock e \<and> snd (indexScan_Next d st e) = Inr (Some row) \<longrightarrow>
          lockChecked (fst (indexScan_Next d st e)))"
proof (intro conjI impI allI)
  assume over: "ignoreLock e \<or> lockChecked e"
  obtain e2 r2 where l: "indexScan_Next_loop d st e = (e2, r2)" by fastforce
  from indexScan_Next_loop_frame [OF l] obtain cs where
    "calls e2 = calls e @ cs" "\<forall>c \<in> set cs. \<not> isLockCall c"
    by (auto simp: indexScan_frame_def)
  then show "filter isLockCall (calls (fst (indexScan_Next d st e))) = filter isLockCall (calls e)"
    using over l by (simp add: indexScan_Next_def indexScan_checkRangeLock_done filter_no_lock)
next
  assume fresh: "\<not> ignoreLock e \<and> \<not> lockChecked e"
  show "case find (\<lambda>rng. \<not> lockPasses st (startTS e) rng) (kvRanges e) of
           Some rng \<Rightarrow>
             (\<exists>err. CheckRangeLock st (startTS e) (StartKey rng) (EndKey rng) = Some err
                \<and> indexScan_Next d st e =
                    (e\<lparr>calls := calls e @
                         lockCalls (startTS e)
                           (takeWhile (lockPasses st (startTS e)) (kvRanges e) @ [rng])\<rparr>,
                     Inl err))
         | None \<Rightarrow>
             lockChecked (fst (indexScan_Next d st e))
             \<and> (\<exists>cs. calls (fst (indexScan_Next d st e)) =
                        calls e @ lockCalls (startTS e) (kvRanges e) @ cs
                      \<and> (\<forall>c \<in> set cs. \<not> isLockCall c))"
  proof (cases "find (\<lambda>rng. \<not> lockPasses st (startTS e) rng) (kvRanges e)")
    case (Some rng)
    from checkRanges_conflict [OF Some] fresh Some show ?thesis
      by (auto simp: indexScan_Next_def indexScan_checkRangeLock_def)
  next
    case None
    let ?e1 = "e\<lparr>calls := calls e @ lockCalls (startTS e) (kvRanges e), lockChecked := True\<rparr>"
    from checkRanges_all_pass [OF None] fresh
    have n: "indexScan_Next d st e = indexScan_Next_loop d st ?e1"
      by (simp add: indexScan_Next_def indexScan_checkRangeLock_def)
    obtain e2 r2 where l: "indexScan_Next_loop d st ?e1 = (e2, r2)" by fastforce
    from indexScan_Next_loop_frame [OF l] obtain cs where
      "calls e2 = calls ?e1 @ cs" "\<forall>c \<in> set cs. \<not> isLockCall c" "lockChecked e2"
      by (auto simp: indexScan_frame_def)
    with None n l show ?thesis by auto
  qed
next
  fix row
  assume a: "\<not> ignoreLock e \<and> snd (indexScan_Next d st e) = Inr (Some row)"
  obtain e1 r1 where c: "indexScan_checkRangeLock st e = (e1, r1)" by fastforce
  with a have r1: "r1 = None" by (cases r1) (simp_all add: indexScan_Next_def)
  from c r1 a have lc: "lockChecked e1"
    by (auto simp: indexScan_checkRangeLock_def split: if_splits prod.splits option.splits)
  obtain e2 r2 where l: "indexScan_Next_loop d st e1 = (e2, r2)" by fastforce
  from indexScan_Next_loop_frame [OF l] lc have "lockChecked e2"
    by (simp add: indexScan_frame_def)
  with c r1 l show "lockChecked (fst (indexScan_Next d st e))" by (simp add: indexScan_Next_def)
qed


fun tableScan_Nexts ::
  "deps \<Rightarrow> store \<Rightarrow> nat \<Rightarrow> tableScanExec \<Rightarrow> tableScanExec \<times> (error + row option) list" where
  "tableScan_Nexts d st 0 e = (e, [])"
| "tableScan_Nexts d st (Suc n) e =
     (case tableScan_Next d st e of
        (e1, Inl err) \<Rightarrow> (e1, [Inl err])
      | (e1, Inr v) \<Rightarrow>
          (case tableScan_Nexts d st n e1 of (e2, rs) \<Rightarrow> (e2, Inr v # rs)))"

fun indexScan_Nexts ::
  "deps \<Rightarrow> store \<Rightarrow> nat \<Rightarrow> indexScanExec \<Rightarrow> indexScanExec \<times> (error + bytes list option) list" where
  "indexScan_Nexts d st 0 e = (e, [])"
| "indexScan_Nexts d st (Suc n) e =
     (case indexScan_Next d st e of
        (e1, Inl err) \<Rightarrow> (e1, [Inl err])
      | (e1, Inr v) \<Rightarrow>
          (case indexScan_Nexts d st n e1 of (e2, rs) \<Rightarrow> (e2, Inr v # rs)))"

definition checkedRanges :: "store \<Rightarrow> nat \<Rightarrow> keyRange list \<Rightarrow> keyRange list" where
  "checkedRanges st ts rngs =
     (case find (\<lambda>rng. \<not> lockPasses st ts rng) rngs of
        None \<Rightarrow> rngs
      | Some rng \<Rightarrow> takeWhile (lockPasses st ts) rngs @ [rng])"

lemma checkedRanges_prefix: "\<exists>rest. rngs = checkedRanges st ts rngs @ rest"
proof (induction rngs)
  case Nil
  then show ?case by (simp add: checkedRanges_def)
next
  case (Cons rng rngs)
  then show ?case by (auto simp: checkedRanges_def split: option.splits)
qed

lemma tableScan_Nexts_Inr:
  "tableScan_Next d st e = (e1, Inr v) \<Longrightarrow>
     fst (tableScan_Nexts d st (Suc n) e) = fst (tableScan_Nexts d st n e1)"
  by (simp split: prod.splits)

lemma tableScan_Nexts_checked:
  "ignoreLock e \<or> lockChecked e \<Longrightarrow>
     \<exists>cs. calls (fst (tableScan_Nexts d st n e)) = calls e @ cs \<and> (\<forall>c \<in> set cs. \<not> isLockCall c)"
proof (induction n arbitrary: e)
  case 0
  then show ?case by simp
next
  case (Suc n)
  obtain e1 r1 where l: "tableScan_Next_loop d st e = (e1, r1)" by fastforce
  with Suc.prems have nx: "tableScan_Next d st e = (e1, r1)"
    by (simp add: tableScan_Next_def tableScan_checkRangeLock_done)
  from tableScan_Next_loop_frame [OF l] obtain cs1 where
    c1: "calls e1 = calls e @ cs1" "\<forall>c \<in> set cs1. \<not> isLockCall c"
    and k1: "ignoreLock e1 = ignoreLock e" "lockChecked e1 = lockChecked e"
    by (auto simp: tableScan_frame_def)
  show ?case
  proof (cases r1)
    case (Inl err)
    with nx c1 show ?thesis by simp
  next
    case (Inr v)
    from Suc.prems k1 have "ignoreLock e1 \<or> lockChecked e1" by simp
    from Suc.IH [OF this] obtain cs2 where
      c2: "calls (fst (tableScan_Nexts d st n e1)) = calls e1 @ cs2" "\<forall>c \<in> set cs2. \<not> isLockCall c"
      by blast
    have "calls (fst (tableScan_Nexts d st (Suc n) e)) = calls e @ (cs1 @ cs2)"
      using tableScan_Nexts_Inr [OF nx [unfolded Inr]] c1(1) c2(1) by simp
    moreover have "\<forall>c \<in> set (cs1 @ cs2). \<not> isLockCall c" using c1(2) c2(2) by auto
    ultimately show ?thesis by blast
  qed
qed

lemma tableScan_Nexts_lock:
  assumes fresh: "\<not> ignoreLock e \<and> \<not> lockChecked e" and n: "0 < n"
  shows "(\<exists>cs. calls (fst (tableScan_Nexts d st n e)) =
                 calls e @ lockCalls (startTS e) (checkedRanges st (startTS e) (kvRanges e)) @ cs
               \<and> (\<forall>c \<in> set cs. \<not> isLockCall c))
       \<and> (\<forall>rng. find (\<lambda>rng. \<not> lockPasses st (startTS e) rng) (kvRanges e) = Some rng \<longrightarrow>
             (\<exists>err. CheckRangeLock st (startTS e) (StartKey rng) (EndKey rng) = Some err
                \<and> snd (tableScan_Nexts d st n e) = [Inl err]))"
proof -
  from n obtain m where m: "n = Suc m" by (cases n) auto
  note once = tableScan_lock_once [of e d st]
  show ?thesis
  proof (cases "find (\<lambda>rng. \<not> lockPasses st (startTS e) rng) (kvRanges e)")
    case (Some rng)
    with once fresh obtain err where
      err: "CheckRangeLock st (startTS e) (StartKey rng) (EndKey rng) = Some err"
      and nx: "tableScan_Next d st e =
                 (e\<lparr>calls := calls e @
                      lockCalls (startTS e)
                        (takeWhile (lockPasses st (startTS e)) (kvRanges e) @ [rng])\<rparr>,
                  Inl err)"
      by auto
    have ck: "checkedRanges st (startTS e) (kvRanges e) =
                takeWhile (lockPasses st (startTS e)) (kvRanges e) @ [rng]"
      using Some by (simp add: checkedRanges_def)
    have "calls (fst (tableScan_Nexts d st n e)) =
            calls e @ lockCalls (startTS e) (checkedRanges st (startTS e) (kvRanges e)) @ []"
      unfolding m ck using nx by simp
    moreover have "snd (tableScan_Nexts d st n e) = [Inl err]" unfolding m using nx by simp
    ultimately show ?thesis using Some err by auto
  next
    case None
    with once fresh obtain cs1 where
      lc: "lockChecked (fst (tableScan_Next d st e))"
      and c1: "calls (fst (tableScan_Next d st e)) =
                 calls e @ lockCalls (startTS e) (kvRanges e) @ cs1"
        "\<forall>c \<in> set cs1. \<not> isLockCall c"
      by auto
    have ck: "checkedRanges st (startTS e) (kvRanges e) = kvRanges e"
      using None by (simp add: checkedRanges_def)
    obtain e1 r1 where nx: "tableScan_Next d st e = (e1, r1)" by fastforce
    with lc c1 have lc1: "lockChecked e1"
      and c1': "calls e1 = calls e @ lockCalls (startTS e) (kvRanges e) @ cs1" by simp_all
    have "\<exists>cs. calls (fst (tableScan_Nexts d st n e)) =
                 calls e @ lockCalls (startTS e) (kvRanges e) @ cs
               \<and> (\<forall>c \<in> set cs. \<not> isLockCall c)"
    proof (cases r1)
      case (Inl err)
      with nx c1' c1(2) show ?thesis unfolding m by simp
    next
      case (Inr v)
      from lc1 have "ignoreLock e1 \<or> lockChecked e1" by simp
      from tableScan_Nexts_checked [OF this, of d st m] obtain cs2 where
        c2: "calls (fst (tableScan_Nexts d st m e1)) = calls e1 @ cs2"
          "\<forall>c \<in> set cs2. \<not> isLockCall c"
        by blast
      have "calls (fst (tableScan_Nexts d st n e)) =
              calls e @ lockCalls (startTS e) (kvRanges e) @ (cs1 @ cs2)"
        unfolding m using tableScan_Nexts_Inr [OF nx [unfolded Inr]] c1' c2(1) by simp
      moreover have "\<forall>c \<in> set (cs1 @ cs2). \<not> isLockCall c" using c1(2) c2(2) by auto
      ultimately show ?thesis by blast
    qed
    with ck None show ?thesis by simp
  qed
qed

lemma indexScan_Nexts_Inr:
  "indexScan_Next d st e = (e1, Inr v) \<Longrightarrow>
     fst (indexScan_Nexts d st (Suc n) e) = fst (indexScan_Nexts d st n e1)"
  by (simp split: prod.splits)

lemma indexScan_Nexts_checked:
  "ignoreLock e \<or> lockChecked e \<Longrightarrow>
     \<exists>cs. calls (fst (indexScan_Nexts d st n e)) = calls e @ cs \<and> (\<forall>c \<in> set cs. \<not> isLockCall c)"
proof (induction n arbitrary: e)
  case 0
  then show ?case by simp
next
  case (Suc n)
  obtain e1 r1 where l: "indexScan_Next_loop d st e = (e1, r1)" by fastforce
  with Suc.prems have nx: "indexScan_Next d st e = (e1, r1)"
    by (simp add: indexScan_Next_def indexScan_checkRangeLock_done)
  from indexScan_Next_loop_frame [OF l] obtain cs1 where
    c1: "calls e1 = calls e @ cs1" "\<forall>c \<in> set cs1. \<not> isLockCall c"
    and k1: "ignoreLock e1 = ignoreLock e" "lockChecked e1 = lockChecked e"
    by (auto simp: indexScan_frame_def)
  show ?case
  proof (cases r1)
    case (Inl err)
    with nx c1 show ?thesis by simp
  next
    case (Inr v)
    from Suc.prems k1 have "ignoreLock e1 \<or> lockChecked e1" by simp
    from Suc.IH [OF this] obtain cs2 where
      c2: "calls (fst (indexScan_Nexts d st n e1)) = calls e1 @ cs2" "\<forall>c \<in> set cs2. \<not> isLockCall c"
      by blast
    have "calls (fst (indexScan_Nexts d st (Suc n) e)) = calls e @ (cs1 @ cs2)"
      using indexScan_Nexts_Inr [OF nx [unfolded Inr]] c1(1) c2(1) by simp
    moreover have "\<forall>c \<in> set (cs1 @ cs2). \<not> isLockCall c" using c1(2) c2(2) by auto
    ultimately show ?thesis by blast
  qed
qed

lemma indexScan_Nexts_lock:
  assumes fresh: "\<not> ignoreLock e \<and> \<not> lockChecked e" and n: "0 < n"
  shows "(\<exists>cs. calls (fst (indexScan_Nexts d st n e)) =
                 calls e @ lockCalls (startTS e) (checkedRanges st (startTS e) (kvRanges e)) @ cs
               \<and> (\<forall>c \<in> set cs. \<not> isLockCall c))
       \<and> (\<forall>rng. find (\<lambda>rng. \<not> lockPasses st (startTS e) rng) (kvRanges e) = Some rng \<longrightarrow>
             (\<exists>err. CheckRangeLock st (startTS e) (StartKey rng) (EndKey rng) = Some err
                \<and> snd (indexScan_Nexts d st n e) = [Inl err]))"
proof -
  from n obtain m where m: "n = Suc m" by (cases n) auto
  note once = indexScan_lock_once [of e d st]
  show ?thesis
  proof (cases "find (\<lambda>rng. \<not> lockPasses st (startTS e) rng) (kvRanges e)")
    case (Some rng)
    with once fresh obtain err where
      err: "CheckRangeLock st (startTS e) (StartKey rng) (EndKey rng) = Some err"
      and nx: "indexScan_Next d st e =
                 (e\<lparr>calls := calls e @
                      lockCalls (startTS e)
                        (takeWhile (lockPasses st (startTS e)) (kvRanges e) @ [rng])\<rparr>,
                  Inl err)"
      by auto
    have ck: "checkedRanges st (startTS e) (kvRanges e) =
                takeWhile (lockPasses st (startTS e)) (kvRanges e) @ [rng]"
      using Some by (simp add: checkedRanges_def)
    have "calls (fst (indexScan_Nexts d st n e)) =
            calls e @ lockCalls (startTS e) (checkedRanges st (startTS e) (kvRanges e)) @ []"
      unfolding m ck using nx by simp
    moreover have "snd (indexScan_Nexts d st n e) = [Inl err]" unfolding m using nx by simp
    ultimately show ?thesis using Some err by auto
  next
    case None
    with once fresh obtain cs1 where
      lc: "lockChecked (fst (indexScan_Next d st e))"
      and c1: "calls (fst (indexScan_Next d st e)) =
                 calls e @ lockCalls (startTS e) (kvRanges e) @ cs1"
        "\<forall>c \<in> set cs1. \<not> isLockCall c"
      by auto
    have ck: "checkedRanges st (startTS e) (kvRanges e) = kvRanges e"
      using None by (simp add: checkedRanges_def)
    obtain e1 r1 where nx: "indexScan_Next d st e = (e1, r1)" by fastforce
    with lc c1 have lc1: "lockChecked e1"
      and c1': "calls e1 = calls e @ lockCalls (startTS e) (kvRanges e) @ cs1" by simp_all
    have "\<exists>cs. calls (fst (indexScan_Nexts d st n e)) =
                 calls e @ lockCalls (startTS e) (kvRanges e) @ cs
               \<and> (\<forall>c \<in> set cs. \<not> isLockCall c)"
    proof (cases r1)
      case (Inl err)
      with nx c1' c1(2) show ?thesis unfolding m by simp
    next
      case (Inr v)
      from lc1 have "ignoreLock e1 \<or> lockChecked e1" by simp
      from indexScan_Nexts_checked [OF this, of d st m] obtain cs2 where
        c2: "calls (fst (indexScan_Nexts d st m e1)) = calls e1 @ cs2"
          "\<forall>c \<in> set cs2. \<not> isLockCall c"
        by blast
      have "calls (fst (indexScan_Nexts d st n e)) =
              calls e @ lockCalls (startTS e) (kvRanges e) @ (cs1 @ cs2)"
        unfolding m using indexScan_Nexts_Inr [OF nx [unfolded Inr]] c1' c2(1) by simp
      moreover have "\<forall>c \<in> set (cs1 @ cs2). \<not> isLockCall c" using c1(2) c2(2) by auto
      ultimately show ?thesis by blast
    qed
    with ck None show ?thesis by simp
  qed
qed


definition onePoint :: tableScanExec where
  "onePoint =
     newTableScan False [] []
       [\<lparr>StartKey = [0, 0, 0, 0, 0, 0, 0, 7], EndKey = [0, 0, 0, 0, 0, 0, 0, 8]\<rparr>] 5 None False"

definition onePointStore :: store where
  "onePointStore = kvStore [([0, 0, 0, 0, 0, 0, 0, 7], [9])] []"

definition lockedIndex :: indexScanExec where
  "lockedIndex =
     newIndexScan False 1 pkColIsSigned (Some True)
       [\<lparr>StartKey = [4], EndKey = [5]\<rparr>, \<lparr>StartKey = [5], EndKey = [6]\<rparr>] 5 None False"

definition lockedIndexStore :: store where
  "lockedIndexStore = kvStore [([5], [0, 0, 0, 0, 0, 0, 0, 42])] [([5], 1)]"

text \<open>
  Claim C5. A run of a scan is a sequence of calls of \<open>Next\<close> that the caller ends at
  the first error. Over every run of a table or index scan that starts with the lock
  check pending and locks not ignored, the lock checks in the log of store calls are
  one per range of a prefix of the range list, in list order: of the whole list when
  no range conflicts, and else of the ranges up to and with the first that conflicts.
  They precede every other call to the store, so every \<^verbatim>\<open>Get\<close> and \<^verbatim>\<open>Scan\<close> that
  could produce a row. When a range conflicts, the run is the one \<open>Next\<close> that
  returns the error of \<^verbatim>\<open>CheckRangeLock\<close>, and no row.
\<close>

theorem lock_check_once_per_range:
  "(\<not> ignoreLock e \<and> \<not> lockChecked e \<and> 0 < n \<longrightarrow>
      (\<exists>rest. kvRanges e = checkedRanges st (startTS e) (kvRanges e) @ rest)
      \<and> (\<exists>cs. calls (fst (tableScan_Nexts d st n e)) =
                 calls e @ lockCalls (startTS e) (checkedRanges st (startTS e) (kvRanges e)) @ cs
               \<and> (\<forall>c \<in> set cs. \<not> isLockCall c))
      \<and> (\<forall>rng. find (\<lambda>rng. \<not> lockPasses st (startTS e) rng) (kvRanges e) = Some rng \<longrightarrow>
             (\<exists>err. CheckRangeLock st (startTS e) (StartKey rng) (EndKey rng) = Some err
                \<and> snd (tableScan_Nexts d st n e) = [Inl err])))
   \<and> (\<not> ignoreLock i \<and> \<not> lockChecked i \<and> 0 < n \<longrightarrow>
      (\<exists>rest. kvRanges i = checkedRanges st (startTS i) (kvRanges i) @ rest)
      \<and> (\<exists>cs. calls (fst (indexScan_Nexts d st n i)) =
                 calls i @ lockCalls (startTS i) (checkedRanges st (startTS i) (kvRanges i)) @ cs
               \<and> (\<forall>c \<in> set cs. \<not> isLockCall c))
      \<and> (\<forall>rng. find (\<lambda>rng. \<not> lockPasses st (startTS i) rng) (kvRanges i) = Some rng \<longrightarrow>
             (\<exists>err. CheckRangeLock st (startTS i) (StartKey rng) (EndKey rng) = Some err
                \<and> snd (indexScan_Nexts d st n i) = [Inl err])))"
proof (intro conjI impI)
  assume a: "\<not> ignoreLock e \<and> \<not> lockChecked e \<and> 0 < n"
  then have fresh: "\<not> ignoreLock e \<and> \<not> lockChecked e" and n: "0 < n" by simp_all
  show "\<exists>rest. kvRanges e = checkedRanges st (startTS e) (kvRanges e) @ rest"
    by (rule checkedRanges_prefix)
  from tableScan_Nexts_lock [OF fresh n, of d st]
  show "\<exists>cs. calls (fst (tableScan_Nexts d st n e)) =
                 calls e @ lockCalls (startTS e) (checkedRanges st (startTS e) (kvRanges e)) @ cs
               \<and> (\<forall>c \<in> set cs. \<not> isLockCall c)"
    and "\<forall>rng. find (\<lambda>rng. \<not> lockPasses st (startTS e) rng) (kvRanges e) = Some rng \<longrightarrow>
             (\<exists>err. CheckRangeLock st (startTS e) (StartKey rng) (EndKey rng) = Some err
                \<and> snd (tableScan_Nexts d st n e) = [Inl err])"
    by blast+
next
  assume a: "\<not> ignoreLock i \<and> \<not> lockChecked i \<and> 0 < n"
  then have fresh: "\<not> ignoreLock i \<and> \<not> lockChecked i" and n: "0 < n" by simp_all
  show "\<exists>rest. kvRanges i = checkedRanges st (startTS i) (kvRanges i) @ rest"
    by (rule checkedRanges_prefix)
  from indexScan_Nexts_lock [OF fresh n, of d st]
  show "\<exists>cs. calls (fst (indexScan_Nexts d st n i)) =
                 calls i @ lockCalls (startTS i) (checkedRanges st (startTS i) (kvRanges i)) @ cs
               \<and> (\<forall>c \<in> set cs. \<not> isLockCall c)"
    and "\<forall>rng. find (\<lambda>rng. \<not> lockPasses st (startTS i) rng) (kvRanges i) = Some rng \<longrightarrow>
             (\<exists>err. CheckRangeLock st (startTS i) (StartKey rng) (EndKey rng) = Some err
                \<and> snd (indexScan_Nexts d st n i) = [Inl err])"
    by blast+
qed

theorem lock_check_once_per_range_witness:
  "filter isLockCall (calls (fst (tableScan_Nexts testDeps onePointStore 2 onePoint))) =
     [CallCheckRangeLock 5 [0, 0, 0, 0, 0, 0, 0, 7] [0, 0, 0, 0, 0, 0, 0, 8]]
   \<and> snd (tableScan_Nexts testDeps onePointStore 2 onePoint) =
       [Inr (Some [Some [9], None, None]), Inr None]
   \<and> snd (indexScan_Nexts testDeps lockedIndexStore 2 lockedIndex) = [Inl (Locked 1)]
   \<and> filter isLockCall (calls (fst (indexScan_Nexts testDeps lockedIndexStore 2 lockedIndex))) =
       [CallCheckRangeLock 5 [4] [5], CallCheckRangeLock 5 [5] [6]]"
proof -
  have t: "\<not> ignoreLock onePoint \<and> \<not> lockChecked onePoint \<and> 0 < (2::nat)"
    "calls onePoint = []" "startTS onePoint = 5"
    "checkedRanges onePointStore 5 (kvRanges onePoint) =
       [\<lparr>StartKey = [0, 0, 0, 0, 0, 0, 0, 7], EndKey = [0, 0, 0, 0, 0, 0, 0, 8]\<rparr>]"
    by (simp_all add: onePoint_def onePointStore_def newTableScan_def checkedRanges_def
        lockPasses_def kvStore_def)
  have i: "\<not> ignoreLock lockedIndex \<and> \<not> lockChecked lockedIndex \<and> 0 < (2::nat)"
    "calls lockedIndex = []" "startTS lockedIndex = 5"
    "checkedRanges lockedIndexStore 5 (kvRanges lockedIndex) =
       [\<lparr>StartKey = [4], EndKey = [5]\<rparr>, \<lparr>StartKey = [5], EndKey = [6]\<rparr>]"
    "find (\<lambda>rng. \<not> lockPasses lockedIndexStore 5 rng) (kvRanges lockedIndex) =
       Some \<lparr>StartKey = [5], EndKey = [6]\<rparr>"
    "CheckRangeLock lockedIndexStore 5 [5] [6] = Some (Locked 1)"
    by (simp_all add: lockedIndex_def lockedIndexStore_def newIndexScan_def checkedRanges_def
        lockPasses_def kvStore_def inKeyRange_def)
  have rows: "snd (tableScan_Nexts testDeps onePointStore 2 onePoint) =
       [Inr (Some [Some [9], None, None]), Inr None]"
    unfolding numeral_2_eq_2
    by (simp add: onePoint_def onePointStore_def tableScan_eval)
  from lock_check_once_per_range
    [where e = onePoint and d = testDeps and st = onePointStore and n = 2] t(1)
  obtain cs where "calls (fst (tableScan_Nexts testDeps onePointStore 2 onePoint)) =
      calls onePoint @ lockCalls (startTS onePoint)
        (checkedRanges onePointStore (startTS onePoint) (kvRanges onePoint)) @ cs"
    and "\<forall>c \<in> set cs. \<not> isLockCall c"
    by blast
  then have a: "filter isLockCall (calls (fst (tableScan_Nexts testDeps onePointStore 2 onePoint))) =
     [CallCheckRangeLock 5 [0, 0, 0, 0, 0, 0, 0, 7] [0, 0, 0, 0, 0, 0, 0, 8]]"
    by (simp add: t lockCalls_def isLockCall_def filter_no_lock)
  from lock_check_once_per_range
    [where i = lockedIndex and d = testDeps and st = lockedIndexStore and n = 2] i(1)
  have all: "(\<exists>cs. calls (fst (indexScan_Nexts testDeps lockedIndexStore 2 lockedIndex)) =
      calls lockedIndex @ lockCalls (startTS lockedIndex)
        (checkedRanges lockedIndexStore (startTS lockedIndex) (kvRanges lockedIndex)) @ cs
      \<and> (\<forall>c \<in> set cs. \<not> isLockCall c))"
    and conflict: "\<forall>rng. find (\<lambda>rng. \<not> lockPasses lockedIndexStore (startTS lockedIndex) rng)
                        (kvRanges lockedIndex) = Some rng \<longrightarrow>
             (\<exists>err. CheckRangeLock lockedIndexStore (startTS lockedIndex) (StartKey rng) (EndKey rng)
                      = Some err
                \<and> snd (indexScan_Nexts testDeps lockedIndexStore 2 lockedIndex) = [Inl err])"
    by blast+
  from all obtain cs where "calls (fst (indexScan_Nexts testDeps lockedIndexStore 2 lockedIndex)) =
      calls lockedIndex @ lockCalls (startTS lockedIndex)
        (checkedRanges lockedIndexStore (startTS lockedIndex) (kvRanges lockedIndex)) @ cs"
    and "\<forall>c \<in> set cs. \<not> isLockCall c"
    by blast
  then have b: "filter isLockCall (calls (fst (indexScan_Nexts testDeps lockedIndexStore 2 lockedIndex))) =
       [CallCheckRangeLock 5 [4] [5], CallCheckRangeLock 5 [5] [6]]"
    by (simp add: i lockCalls_def isLockCall_def filter_no_lock)
  from conflict i(5) have "\<exists>err. CheckRangeLock lockedIndexStore 5 [5] [6] = Some err
                \<and> snd (indexScan_Nexts testDeps lockedIndexStore 2 lockedIndex) = [Inl err]"
    unfolding i(3) by fastforce
  with i(6) have c: "snd (indexScan_Nexts testDeps lockedIndexStore 2 lockedIndex) = [Inl (Locked 1)]"
    by simp
  from a rows c b show ?thesis by blast
qed

text \<open>
  \<^verbatim>\<open>lockChecked\<close> is set only when the check has passed every range. A caller that
  calls \<open>Next\<close> again after a lock error has the ranges checked again.
\<close>

lemma tableScan_lock_check_after_error:
  "tableScan_Next testDeps (kvStore [] [([3], 1)])
       (fst (tableScan_Next testDeps (kvStore [] [([3], 1)])
          (newTableScan False [] [] [\<lparr>StartKey = [1], EndKey = [9]\<rparr>] 5 None False)))
     = (newTableScan False [] [] [\<lparr>StartKey = [1], EndKey = [9]\<rparr>] 5 None False
          \<lparr>calls := [CallCheckRangeLock 5 [1] [9], CallCheckRangeLock 5 [1] [9]]\<rparr>,
        Inl (Locked 1))"
  by (simp add: tableScan_Next_def tableScan_checkRangeLock_def newTableScan_def kvStore_def
      inKeyRange_def)

subsection \<open>The counts vector\<close>

text \<open>
  The caller of a scan executor, as far as the counts go: a sequence of calls of
  \<^verbatim>\<open>Next\<close> and \<^verbatim>\<open>ResetCounts\<close>, with the number of rows that \<^verbatim>\<open>Next\<close> has
  returned since the last reset. A panic of \<^verbatim>\<open>ResetCounts\<close> ends the run.
\<close>

datatype scanOp = OpNext | OpResetCounts

fun tableScan_run ::
  "deps \<Rightarrow> store \<Rightarrow> tableScanExec \<Rightarrow> nat \<Rightarrow> scanOp list \<Rightarrow> error + (tableScanExec \<times> nat)" where
  "tableScan_run d st e emitted [] = Inr (e, emitted)"
| "tableScan_run d st e emitted (OpNext # ops) =
     (case tableScan_Next d st e of
        (e', Inr (Some row)) \<Rightarrow> tableScan_run d st e' (emitted + 1) ops
      | (e', Inr None) \<Rightarrow> tableScan_run d st e' emitted ops
      | (e', Inl err) \<Rightarrow> tableScan_run d st e' emitted ops)"
| "tableScan_run d st e emitted (OpResetCounts # ops) =
     (case tableScan_ResetCounts e of
        Inl err \<Rightarrow> Inl err
      | Inr e' \<Rightarrow> tableScan_run d st e' 0 ops)"

fun indexScan_run ::
  "deps \<Rightarrow> store \<Rightarrow> indexScanExec \<Rightarrow> nat \<Rightarrow> scanOp list \<Rightarrow> error + (indexScanExec \<times> nat)" where
  "indexScan_run d st e emitted [] = Inr (e, emitted)"
| "indexScan_run d st e emitted (OpNext # ops) =
     (case indexScan_Next d st e of
        (e', Inr (Some row)) \<Rightarrow> indexScan_run d st e' (emitted + 1) ops
      | (e', Inr None) \<Rightarrow> indexScan_run d st e' emitted ops
      | (e', Inl err) \<Rightarrow> indexScan_run d st e' emitted ops)"
| "indexScan_run d st e emitted (OpResetCounts # ops) =
     (case indexScan_ResetCounts e of
        Inl err \<Rightarrow> Inl err
      | Inr e' \<Rightarrow> indexScan_run d st e' 0 ops)"

text \<open>A counts vector that is nil or holds zeros only, as \<^verbatim>\<open>make\<close> allocates it.\<close>

definition countsAllZero :: "int list option \<Rightarrow> bool" where
  "countsAllZero cnts = (case cnts of None \<Rightarrow> True | Some cs \<Rightarrow> list_all (\<lambda>c. c = 0) cs)"

lemma tableScan_Next_counts:
  "counts (fst (tableScan_Next d st e)) = counts e \<and> start (fst (tableScan_Next d st e)) = start e"
proof -
  obtain e1 r1 where c: "tableScan_checkRangeLock st e = (e1, r1)" by fastforce
  then have k: "counts e1 = counts e" "start e1 = start e"
    by (auto simp: tableScan_checkRangeLock_def split: if_splits prod.splits option.splits)
  show ?thesis
  proof (cases r1)
    case (Some err)
    with c k show ?thesis by (simp add: tableScan_Next_def)
  next
    case None
    obtain e2 r2 where l: "tableScan_Next_loop d st e1 = (e2, r2)" by fastforce
    from tableScan_Next_loop_frame [OF l] have "counts e2 = counts e1" "start e2 = start e1"
      by (simp_all add: tableScan_frame_def)
    with c None l k show ?thesis by (simp add: tableScan_Next_def)
  qed
qed

lemma indexScan_Next_counts:
  "counts (fst (indexScan_Next d st e)) = counts e \<and> start (fst (indexScan_Next d st e)) = start e"
proof -
  obtain e1 r1 where c: "indexScan_checkRangeLock st e = (e1, r1)" by fastforce
  then have k: "counts e1 = counts e" "start e1 = start e"
    by (auto simp: indexScan_checkRangeLock_def split: if_splits prod.splits option.splits)
  show ?thesis
  proof (cases r1)
    case (Some err)
    with c k show ?thesis by (simp add: indexScan_Next_def)
  next
    case None
    obtain e2 r2 where l: "indexScan_Next_loop d st e1 = (e2, r2)" by fastforce
    from indexScan_Next_loop_frame [OF l] have "counts e2 = counts e1" "start e2 = start e1"
      by (simp_all add: indexScan_frame_def)
    with c None l k show ?thesis by (simp add: indexScan_Next_def)
  qed
qed

lemma list_all_zero_update: "list_all (\<lambda>c. c = 0) cs \<Longrightarrow> list_all (\<lambda>c. c = (0::int)) (cs[i := 0])"
  by (induction cs arbitrary: i) (auto split: nat.splits)

lemma countsAllZero_ResetCounts_table:
  "countsAllZero (counts e) \<Longrightarrow> tableScan_ResetCounts e = Inr e' \<Longrightarrow> countsAllZero (counts e')"
  by (auto simp: countsAllZero_def tableScan_ResetCounts_def list_all_zero_update
      split: option.splits if_splits)

lemma countsAllZero_ResetCounts_index:
  "countsAllZero (counts e) \<Longrightarrow> indexScan_ResetCounts e = Inr e' \<Longrightarrow> countsAllZero (counts e')"
  by (auto simp: countsAllZero_def indexScan_ResetCounts_def list_all_zero_update
      split: option.splits if_splits)

lemma tableScan_run_zero:
  "countsAllZero (counts e) \<Longrightarrow> tableScan_run d st e n ops = Inr (e', m) \<Longrightarrow>
     countsAllZero (counts e')"
proof (induction ops arbitrary: e n)
  case Nil
  then show ?case by simp
next
  case (Cons op ops)
  show ?case
  proof (cases op)
    case OpNext
    obtain e1 r1 where nx: "tableScan_Next d st e = (e1, r1)" by fastforce
    with tableScan_Next_counts [of d st e] Cons.prems(1) have z: "countsAllZero (counts e1)"
      by simp
    from Cons.prems(2) OpNext nx obtain n' where "tableScan_run d st e1 n' ops = Inr (e', m)"
      by (auto split: sum.splits option.splits)
    from Cons.IH [OF z this] show ?thesis .
  next
    case OpResetCounts
    with Cons.prems(2) obtain e1 where rs: "tableScan_ResetCounts e = Inr e1"
      and run: "tableScan_run d st e1 0 ops = Inr (e', m)"
      by (auto split: sum.splits)
    from Cons.IH [OF countsAllZero_ResetCounts_table [OF Cons.prems(1) rs] run] show ?thesis .
  qed
qed

lemma indexScan_run_zero:
  "countsAllZero (counts e) \<Longrightarrow> indexScan_run d st e n ops = Inr (e', m) \<Longrightarrow>
     countsAllZero (counts e')"
proof (induction ops arbitrary: e n)
  case Nil
  then show ?case by simp
next
  case (Cons op ops)
  show ?case
  proof (cases op)
    case OpNext
    obtain e1 r1 where nx: "indexScan_Next d st e = (e1, r1)" by fastforce
    with indexScan_Next_counts [of d st e] Cons.prems(1) have z: "countsAllZero (counts e1)"
      by simp
    from Cons.prems(2) OpNext nx obtain n' where "indexScan_run d st e1 n' ops = Inr (e', m)"
      by (auto split: sum.splits option.splits)
    from Cons.IH [OF z this] show ?thesis .
  next
    case OpResetCounts
    with Cons.prems(2) obtain e1 where rs: "indexScan_ResetCounts e = Inr e1"
      and run: "indexScan_run d st e1 0 ops = Inr (e', m)"
      by (auto split: sum.splits)
    from Cons.IH [OF countsAllZero_ResetCounts_index [OF Cons.prems(1) rs] run] show ?thesis .
  qed
qed

lemma sliceOf_zero:
  "list_all (\<lambda>c. c = (0::int)) cs \<Longrightarrow> sliceOf cs lo hi = Inr sl \<Longrightarrow> sum_list sl = 0"
proof -
  assume z: "list_all (\<lambda>c. c = (0::int)) cs" and s: "sliceOf cs lo hi = Inr sl"
  from s have sl: "sl = take (hi - lo) (drop lo cs)" by (auto simp: sliceOf_def split: if_splits)
  have "set sl \<subseteq> set cs" unfolding sl
    by (meson set_take_subset set_drop_subset subset_trans)
  with z have "\<forall>c \<in> set sl. c = 0" by (auto simp: list_all_iff)
  then show ?thesis by (induction sl) simp_all
qed


lemma tableScan_ResetCounts_past_end:
  "counts e = Some cs \<Longrightarrow> length cs \<le> rangeCursor e \<Longrightarrow> tableScan_ResetCounts e = Inl Panic"
  by (simp add: tableScan_ResetCounts_def)

lemma indexScan_ResetCounts_past_end:
  "counts e = Some cs \<Longrightarrow> length cs \<le> ranCursor e \<Longrightarrow> indexScan_ResetCounts e = Inl Panic"
  by (simp add: indexScan_ResetCounts_def)

lemma tableScan_Counts_sum_zero:
  assumes "countsAllZero (counts e)" and "tableScan_run d st e n ops = Inr (e', m)"
      and "tableScan_Counts e' = Inr (Some sl)"
  shows "sum_list sl = 0"
proof -
  from assms(1) assms(2) have "countsAllZero (counts e')" by (rule tableScan_run_zero)
  with assms(3) show ?thesis
    by (auto simp: tableScan_Counts_def countsAllZero_def
        split: option.splits sum.splits if_splits dest: sliceOf_zero)
qed

lemma indexScan_Counts_sum_zero:
  assumes "countsAllZero (counts e)" and "indexScan_run d st e n ops = Inr (e', m)"
      and "indexScan_Counts e' = Inr (Some sl)"
  shows "sum_list sl = 0"
proof -
  from assms(1) assms(2) have "countsAllZero (counts e')" by (rule indexScan_run_zero)
  with assms(3) show ?thesis
    by (auto simp: indexScan_Counts_def countsAllZero_def
        split: option.splits sum.splits if_splits dest: sliceOf_zero)
qed

definition countedPoint :: tableScanExec where
  "countedPoint =
     newTableScan False [] []
       [\<lparr>StartKey = [0, 0, 0, 0, 0, 0, 0, 7], EndKey = [0, 0, 0, 0, 0, 0, 0, 8]\<rparr>]
       5 (Some [0]) True"

definition countedIndexPoint :: indexScanExec where
  "countedIndexPoint =
     newIndexScan False 1 pkColIsSigned (Some True) [\<lparr>StartKey = [5], EndKey = [6]\<rparr>]
       5 (Some [0]) True"

text \<open>
  Claim C6. The claim has the sum of \<^verbatim>\<open>Counts()\<close> follow the number of rows emitted
  since the last reset. The executors keep the vector, reset it and cut the window
  that \<^verbatim>\<open>Counts()\<close> returns, but \<open>Next\<close> never writes the vector or the \<open>start\<close>
  index, whatever it returns: the increment is missing. A table scan and an index
  scan over one point range, with a vector of one zero, each emit one row from the
  first \<open>Next\<close>; \<^verbatim>\<open>Counts()\<close> is then the vector of one zero, of sum 0 and not 1.
\<close>

theorem counts_never_incremented:
  "(counts (fst (tableScan_Next d st e)) = counts e
      \<and> start (fst (tableScan_Next d st e)) = start e)
   \<and> (counts (fst (indexScan_Next d st i)) = counts i
      \<and> start (fst (indexScan_Next d st i)) = start i)
   \<and> tableScan_run testDeps onePointStore countedPoint 0 [OpNext] =
       Inr (countedPoint\<lparr>rowCursor := 1, rows := [[Some [9], None, None]],
              calls := [CallGet [0, 0, 0, 0, 0, 0, 0, 7] 5], rangeCursor := 1\<rparr>, 1)
   \<and> tableScan_Counts
        (countedPoint\<lparr>rowCursor := 1, rows := [[Some [9], None, None]],
           calls := [CallGet [0, 0, 0, 0, 0, 0, 0, 7] 5], rangeCursor := 1\<rparr>) = Inr (Some [0])
   \<and> indexScan_run testDeps uniquePointStore countedIndexPoint 0 [OpNext] =
       Inr (countedIndexPoint\<lparr>rowCursor := 1, rows := [[[5], [3, 0, 0, 0, 0, 0, 0, 0, 42]]],
              calls := [CallGet [5] 5], ranCursor := 1\<rparr>, 1)
   \<and> indexScan_Counts
        (countedIndexPoint\<lparr>rowCursor := 1, rows := [[[5], [3, 0, 0, 0, 0, 0, 0, 0, 42]]],
           calls := [CallGet [5] 5], ranCursor := 1\<rparr>) = Inr (Some [0])
   \<and> sum_list [0 :: int] \<noteq> 1"
proof (intro conjI)
  show "counts (fst (tableScan_Next d st e)) = counts e"
    "start (fst (tableScan_Next d st e)) = start e"
    using tableScan_Next_counts [of d st e] by simp_all
  show "counts (fst (indexScan_Next d st i)) = counts i"
    "start (fst (indexScan_Next d st i)) = start i"
    using indexScan_Next_counts [of d st i] by simp_all
  show "tableScan_run testDeps onePointStore countedPoint 0 [OpNext] =
       Inr (countedPoint\<lparr>rowCursor := 1, rows := [[Some [9], None, None]],
              calls := [CallGet [0, 0, 0, 0, 0, 0, 0, 7] 5], rangeCursor := 1\<rparr>, 1)"
    by (simp add: countedPoint_def onePointStore_def tableScan_eval)
  show "tableScan_Counts
        (countedPoint\<lparr>rowCursor := 1, rows := [[Some [9], None, None]],
           calls := [CallGet [0, 0, 0, 0, 0, 0, 0, 7] 5], rangeCursor := 1\<rparr>) = Inr (Some [0])"
    by (simp add: countedPoint_def newTableScan_def tableScan_Counts_def sliceOf_def)
  show "indexScan_run testDeps uniquePointStore countedIndexPoint 0 [OpNext] =
       Inr (countedIndexPoint\<lparr>rowCursor := 1, rows := [[[5], [3, 0, 0, 0, 0, 0, 0, 0, 42]]],
              calls := [CallGet [5] 5], ranCursor := 1\<rparr>, 1)"
    by (simp add: countedIndexPoint_def uniquePointStore_def indexScan_eval BigEndian_Uint64_def
        PutUint64_def pkColIsUnsigned_def)
  show "indexScan_Counts
        (countedIndexPoint\<lparr>rowCursor := 1, rows := [[[5], [3, 0, 0, 0, 0, 0, 0, 0, 42]]],
           calls := [CallGet [5] 5], ranCursor := 1\<rparr>) = Inr (Some [0])"
    by (simp add: countedIndexPoint_def newIndexScan_def indexScan_Counts_def sliceOf_def)
  show "sum_list [0 :: int] \<noteq> 1" by simp
qed

section \<open>Selection\<close>

subsection \<open>The source executor and expression evaluation\<close>

text \<open>
  An operator sees its source executor through \<^verbatim>\<open>src.Next\<close> only. The source is
  modelled by the results its successive \<^verbatim>\<open>Next\<close> calls return: a list of rows and
  errors, after which it returns end-of-stream (the nil row) for ever.
\<close>

type_synonym 'r source = "(error + 'r) list"

fun source_Next :: "'r source \<Rightarrow> 'r source \<times> (error + 'r option)" where
  "source_Next [] = ([], Inr None)"
| "source_Next (Inl err # rest) = (rest, Inl err)"
| "source_Next (Inr v # rest) = (rest, Inr (Some v))"

text \<open>
  Expression evaluation is imported: \<^verbatim>\<open>expr.Eval\<close>, \<^verbatim>\<open>Datum.IsNull\<close>,
  \<^verbatim>\<open>Datum.ToBool\<close> and the method \<^verbatim>\<open>evalCtx.decodeRelatedColumnVals\<close> are parameters,
  over types of expressions \<open>'x\<close>, datums \<open>'d\<close> and rows \<open>'r\<close>.
  \<^verbatim>\<open>decodeRelatedColumnVals(offsets, value, row)\<close> writes into the datum row in place:
  it gives the datum row after its writes, and its error. \<^verbatim>\<open>chkRow.update\<close> and
  \<^verbatim>\<open>chkRow.row\<close> hand the datum row to \<^verbatim>\<open>Eval\<close> in the form it reads.
\<close>

record ('x, 'd, 'r) evalDeps =
  decodeRelatedColumnVals :: "nat list \<Rightarrow> 'r \<Rightarrow> 'd list \<Rightarrow> 'd list \<times> error option"
  Eval :: "'x \<Rightarrow> 'd list \<Rightarrow> error + 'd"
  IsNull :: "'d \<Rightarrow> bool"
  ToBool :: "'d \<Rightarrow> error + int"

text \<open>
  The fields that \<^verbatim>\<open>selectionExec\<close> and \<^verbatim>\<open>topNExec\<close> have in common (lines 501-509
  and 578-591).
\<close>

record ('d, 'r) evalExec =
  relatedColOffsets :: "nat list"
  row :: "'d list"
  src :: "'r source"

record ('x, 'd, 'r) selectionExec = "('d, 'r) evalExec" +
  conditions :: "'x list"

subsection \<open>selectionExec (executor.go, lines 528-576)\<close>

fun evalBool :: "('x, 'd, 'r) evalDeps \<Rightarrow> 'x list \<Rightarrow> 'd list \<Rightarrow> error + bool" where
  "evalBool ed [] rw = Inr True"
| "evalBool ed (expr # exprs) rw =
     (case Eval ed expr rw of
        Inl err \<Rightarrow> Inl err
      | Inr dat \<Rightarrow>
          if IsNull ed dat then Inr False
          else
            (case ToBool ed dat of
               Inl err \<Rightarrow> Inl err
             | Inr isBool \<Rightarrow> if isBool = 0 then Inr False else evalBool ed exprs rw))"

function selection_Next ::
  "('x, 'd, 'r) evalDeps \<Rightarrow> ('x, 'd, 'r) selectionExec
     \<Rightarrow> ('x, 'd, 'r) selectionExec \<times> (error + 'r option)" where
  "selection_Next ed e =
     (case source_Next (src e) of
        (s, Inl err) \<Rightarrow> (e\<lparr>src := s\<rparr>, Inl err)
      | (s, Inr None) \<Rightarrow> (e\<lparr>src := s\<rparr>, Inr None)
      | (s, Inr (Some v)) \<Rightarrow>
          (case decodeRelatedColumnVals ed (relatedColOffsets e) v (row e) of
             (rw, Some err) \<Rightarrow> (e\<lparr>src := s, row := rw\<rparr>, Inl err)
           | (rw, None) \<Rightarrow>
               (case evalBool ed (conditions e) rw of
                  Inl err \<Rightarrow> (e\<lparr>src := s, row := rw\<rparr>, Inl err)
                | Inr match \<Rightarrow>
                    if match then (e\<lparr>src := s, row := rw\<rparr>, Inr (Some v))
                    else selection_Next ed (e\<lparr>src := s, row := rw\<rparr>))))"
  by pat_completeness auto
termination
proof (relation "measure (\<lambda>(ed, e). length (src e))")
  show "wf (measure (\<lambda>(ed :: ('x, 'd, 'r) evalDeps, e :: ('x, 'd, 'r) selectionExec). length (src e)))"
    by simp
next
  fix ed :: "('x, 'd, 'r) evalDeps" and e :: "('x, 'd, 'r) selectionExec"
    and x s y b x2 v xa rw ya xb
  assume "(s, y) = source_Next (src e)" "y = Inr b" "b = Some v"
  then have "length s < length (src e)"
    by (cases "src e" rule: source_Next.cases) auto
  then show "((ed, e\<lparr>src := s, row := rw\<rparr>), (ed, e)) \<in> measure (\<lambda>(ed, e). length (src e))"
    by simp
qed

declare selection_Next.simps [simp del]

text \<open>
  The claim's words: a condition passes on a datum row when it evaluates to a value
  that is not NULL and coerces to a nonzero boolean; it rejects the row when it
  evaluates to NULL or to a value that coerces to zero.
\<close>

definition condPasses :: "('x, 'd, 'r) evalDeps \<Rightarrow> 'd list \<Rightarrow> 'x \<Rightarrow> bool" where
  "condPasses ed rw expr =
     (case Eval ed expr rw of
        Inl err \<Rightarrow> False
      | Inr dat \<Rightarrow>
          \<not> IsNull ed dat \<and> (case ToBool ed dat of Inl err \<Rightarrow> False | Inr b \<Rightarrow> b \<noteq> 0))"

definition condRejects :: "('x, 'd, 'r) evalDeps \<Rightarrow> 'd list \<Rightarrow> 'x \<Rightarrow> bool" where
  "condRejects ed rw expr =
     (case Eval ed expr rw of
        Inl err \<Rightarrow> False
      | Inr dat \<Rightarrow>
          IsNull ed dat \<or> (case ToBool ed dat of Inl err \<Rightarrow> False | Inr b \<Rightarrow> b = 0))"

lemma evalBool_True_iff:
  "evalBool ed exprs rw = Inr True \<longleftrightarrow> list_all (condPasses ed rw) exprs"
  by (induction exprs) (auto simp: condPasses_def split: sum.splits)

lemma condRejects_not_passes: "condRejects ed rw expr \<Longrightarrow> \<not> condPasses ed rw expr"
  by (auto simp: condRejects_def condPasses_def split: sum.splits)

lemma selection_Next_head:
  assumes "src e = Inr v # rest"
      and "decodeRelatedColumnVals ed (relatedColOffsets e) v (row e) = (rw, None)"
  shows "selection_Next ed e =
           (case evalBool ed (conditions e) rw of
              Inl err \<Rightarrow> (e\<lparr>src := rest, row := rw\<rparr>, Inl err)
            | Inr match \<Rightarrow>
                if match then (e\<lparr>src := rest, row := rw\<rparr>, Inr (Some v))
                else selection_Next ed (e\<lparr>src := rest, row := rw\<rparr>))"
  using assms by (subst selection_Next.simps) simp

lemma selection_Next_sound:
  "selection_Next ed e = (e', Inr (Some v)) \<Longrightarrow>
     list_all (condPasses ed (row e')) (conditions e)
     \<and> (\<exists>rw0. decodeRelatedColumnVals ed (relatedColOffsets e) v rw0 = (row e', None))
     \<and> (\<exists>skipped. src e = skipped @ Inr v # src e')"
proof (induction ed e arbitrary: e' v rule: selection_Next.induct)
  case (1 ed e)
  show ?case
  proof (cases "src e" rule: source_Next.cases)
    case 1
    with "1.prems" show ?thesis by (simp add: selection_Next.simps [of ed e])
  next
    case (2 err rest)
    with "1.prems" show ?thesis by (simp add: selection_Next.simps [of ed e])
  next
    case (3 u rest)
    obtain rw r where dc: "decodeRelatedColumnVals ed (relatedColOffsets e) u (row e) = (rw, r)"
      by fastforce
    show ?thesis
    proof (cases r)
      case (Some err)
      with "1.prems" 3 dc show ?thesis by (simp add: selection_Next.simps [of ed e])
    next
      case None
      note hd = selection_Next_head [OF 3 dc [unfolded None]]
      show ?thesis
      proof (cases "evalBool ed (conditions e) rw")
        case (Inl err)
        with "1.prems" hd show ?thesis by simp
      next
        case (Inr match)
        show ?thesis
        proof (cases match)
          case True
          with "1.prems" hd Inr have e': "e' = e\<lparr>src := rest, row := rw\<rparr>" "v = u" by simp_all
          have "list_all (condPasses ed rw) (conditions e)"
            using Inr True by (simp add: evalBool_True_iff)
          moreover have "src e = [] @ Inr v # src e'" using 3 e' by simp
          ultimately show ?thesis using e' dc None by auto
        next
          case False
          with "1.prems" hd Inr
          have rec: "selection_Next ed (e\<lparr>src := rest, row := rw\<rparr>) = (e', Inr (Some v))"
            by simp
          have sn: "(rest, Inr (Some u)) = source_Next (src e)" using 3 by simp
          have dc': "(rw, r) = decodeRelatedColumnVals ed (relatedColOffsets e) u (row e)"
            using dc by simp
          have nm: "\<not> match" using False .
          from "1.IH" [OF sn refl refl dc' None Inr nm rec]
          have ih: "list_all (condPasses ed (row e')) (conditions e)"
            "\<exists>rw0. decodeRelatedColumnVals ed (relatedColOffsets e) v rw0 = (row e', None)"
            "\<exists>skipped. rest = skipped @ Inr v # src e'"
            by simp_all
          from ih(3) obtain skipped where "rest = skipped @ Inr v # src e'" by blast
          then have "src e = (Inr u # skipped) @ Inr v # src e'" using 3 by simp
          then have "\<exists>skipped. src e = skipped @ Inr v # src e'" by blast
          with ih(1) ih(2) show ?thesis by blast
        qed
      qed
    qed
  qed
qed


lemma selection_Next_shortens:
  "selection_Next ed e = (e', Inr (Some v)) \<Longrightarrow> length (src e') < length (src e)"
  using selection_Next_sound [of ed e e' v] by auto

text \<open>
  A concrete instance to run the model on: a row is a list of optional integers and
  is its own datum row, an expression is a column index, NULL is \<open>None\<close>.
\<close>

definition testEvalDeps :: "(nat, int option, int option list) evalDeps" where
  "testEvalDeps =
     \<lparr>decodeRelatedColumnVals = (\<lambda>offsets v rw. (v, None)),
      Eval = (\<lambda>expr rw. if expr < length rw then Inr (rw ! expr) else Inl (EvalError 0)),
      IsNull = (\<lambda>dat. dat = None),
      ToBool = (\<lambda>dat. case dat of None \<Rightarrow> Inl (EvalError 1)
                                 | Some n \<Rightarrow> Inr (if n = 0 then 0 else 1))\<rparr>"

text \<open>
  Claim C4. Let the source hand \<^verbatim>\<open>selectionExec.Next\<close> the row \<open>v\<close>, decoded
  without error to the datum row \<open>rw\<close>. Then \<open>Next\<close> returns \<open>v\<close> itself, unchanged,
  iff every condition passes on \<open>rw\<close>. When some condition evaluates to NULL or
  coerces to zero, this call does not return the row: it returns an error (of a
  condition before that one) or goes on with the rest of the source as if the row had
  not been there. And whatever row a call of \<open>Next\<close> returns is a row of the source on
  whose decoded datum row every condition passes.
\<close>

theorem selection_emits_iff_conditions_pass:
  "(src e = Inr v # rest
      \<and> decodeRelatedColumnVals ed (relatedColOffsets e) v (row e) = (rw, None) \<longrightarrow>
        ((selection_Next ed e = (e\<lparr>src := rest, row := rw\<rparr>, Inr (Some v)))
           = list_all (condPasses ed rw) (conditions e))
        \<and> ((\<exists>expr \<in> set (conditions e). condRejects ed rw expr) \<longrightarrow>
             (\<exists>err. selection_Next ed e = (e\<lparr>src := rest, row := rw\<rparr>, Inl err))
             \<or> selection_Next ed e = selection_Next ed (e\<lparr>src := rest, row := rw\<rparr>)))
   \<and> (selection_Next ed e = (e', Inr (Some v')) \<longrightarrow>
        list_all (condPasses ed (row e')) (conditions e)
        \<and> (\<exists>rw0. decodeRelatedColumnVals ed (relatedColOffsets e) v' rw0 = (row e', None))
        \<and> (\<exists>skipped. src e = skipped @ Inr v' # src e'))"
proof (intro conjI impI)
  assume a: "src e = Inr v # rest
      \<and> decodeRelatedColumnVals ed (relatedColOffsets e) v (row e) = (rw, None)"
  let ?e1 = "e\<lparr>src := rest, row := rw\<rparr>"
  from a have hd: "selection_Next ed e =
           (case evalBool ed (conditions e) rw of
              Inl err \<Rightarrow> (?e1, Inl err)
            | Inr match \<Rightarrow>
                if match then (?e1, Inr (Some v)) else selection_Next ed ?e1)"
    by (intro selection_Next_head) simp_all
  show "(selection_Next ed e = (?e1, Inr (Some v))) = list_all (condPasses ed rw) (conditions e)"
  proof
    assume p: "list_all (condPasses ed rw) (conditions e)"
    then have "evalBool ed (conditions e) rw = Inr True" by (simp add: evalBool_True_iff)
    with hd show "selection_Next ed e = (?e1, Inr (Some v))" by simp
  next
    assume n: "selection_Next ed e = (?e1, Inr (Some v))"
    show "list_all (condPasses ed rw) (conditions e)"
    proof (cases "evalBool ed (conditions e) rw")
      case (Inl err)
      with hd n show ?thesis by simp
    next
      case (Inr match)
      show ?thesis
      proof (cases match)
        case True
        with Inr show ?thesis by (simp add: evalBool_True_iff)
      next
        case False
        with hd n Inr have "selection_Next ed ?e1 = (?e1, Inr (Some v))" by simp
        from selection_Next_shortens [OF this] show ?thesis by simp
      qed
    qed
  qed
  show "(\<exists>err. selection_Next ed e = (?e1, Inl err)) \<or> selection_Next ed e = selection_Next ed ?e1"
    if "\<exists>expr \<in> set (conditions e). condRejects ed rw expr"
  proof -
    from that have "\<not> list_all (condPasses ed rw) (conditions e)"
      by (auto simp: list_all_iff dest: condRejects_not_passes)
    then have "evalBool ed (conditions e) rw \<noteq> Inr True" by (simp add: evalBool_True_iff)
    with hd show ?thesis by (cases "evalBool ed (conditions e) rw") auto
  qed
next
  assume "selection_Next ed e = (e', Inr (Some v'))"
  from selection_Next_sound [OF this]
  show "list_all (condPasses ed (row e')) (conditions e)"
    "\<exists>rw0. decodeRelatedColumnVals ed (relatedColOffsets e) v' rw0 = (row e', None)"
    "\<exists>skipped. src e = skipped @ Inr v' # src e'"
    by simp_all
qed

theorem selection_emits_iff_conditions_pass_witness:
  "selection_Next testEvalDeps
     \<lparr>relatedColOffsets = [0], row = [], src = [Inr [Some 3, None]], conditions = [0]\<rparr>
     = (\<lparr>relatedColOffsets = [0], row = [Some 3, None], src = [], conditions = [0]\<rparr>,
        Inr (Some [Some 3, None]))
   \<and> selection_Next testEvalDeps
     \<lparr>relatedColOffsets = [0, 1], row = [], src = [Inr [Some 3, None], Inr [Some 3, Some 0],
        Inr [Some 1, Some 2], Inr [Some 7, Some 7]], conditions = [0, 1]\<rparr>
     = (\<lparr>relatedColOffsets = [0, 1], row = [Some 1, Some 2], src = [Inr [Some 7, Some 7]],
         conditions = [0, 1]\<rparr>,
        Inr (Some [Some 1, Some 2]))"
proof -
  let ?e = "\<lparr>relatedColOffsets = [0], row = [], src = [Inr [Some 3, None]], conditions = [0]\<rparr>
              :: (nat, int option, int option list) selectionExec"
  have h: "src ?e = Inr [Some 3, None] # []
      \<and> decodeRelatedColumnVals testEvalDeps (relatedColOffsets ?e) [Some 3, None] (row ?e)
          = ([Some 3, None], None)"
    by (simp add: testEvalDeps_def)
  have p: "list_all (condPasses testEvalDeps [Some 3, None]) (conditions ?e)"
    by (simp add: condPasses_def testEvalDeps_def)
  from selection_emits_iff_conditions_pass [of ?e "[Some 3, None]" "[]" testEvalDeps "[Some 3, None]"]
    h p
  have a: "selection_Next testEvalDeps ?e = (?e\<lparr>src := [], row := [Some 3, None]\<rparr>,
        Inr (Some [Some 3, None]))"
    by blast
  have b: "selection_Next testEvalDeps
     \<lparr>relatedColOffsets = [0, 1], row = [], src = [Inr [Some 3, None], Inr [Some 3, Some 0],
        Inr [Some 1, Some 2], Inr [Some 7, Some 7]], conditions = [0, 1]\<rparr>
     = (\<lparr>relatedColOffsets = [0, 1], row = [Some 1, Some 2], src = [Inr [Some 7, Some 7]],
         conditions = [0, 1]\<rparr>,
        Inr (Some [Some 1, Some 2]))"
    by (simp add: selection_Next.simps testEvalDeps_def)
  from a b show ?thesis by simp
qed

section \<open>Range coverage of the table scan\<close>

text \<open>
  Modelled from the spec: \<^verbatim>\<open>decodeRowKey\<close> is not in \<^verbatim>\<open>executor.go\<close>. "Key =
  \<^verbatim>\<open>tablePrefix || tableID || recordMarker || BigEndianI64(handle)\<close>": the byte \<open>t\<close>,
  the 8 bytes of the table id, the bytes \<open>_r\<close> and the 8 bytes of the handle, 19 bytes
  in all; a key of another shape does not decode.
\<close>

definition RecordKey :: "64 word \<Rightarrow> 64 word \<Rightarrow> bytes" where
  "RecordKey tableID handle = 0x74 # PutUint64 tableID @ [0x5F, 0x72] @ PutUint64 handle"

definition decodeRowKey_spec :: "bytes \<Rightarrow> error + 64 word" where
  "decodeRowKey_spec key =
     (if length key = 19 \<and> key ! 0 = 0x74 \<and> key ! 9 = 0x5F \<and> key ! 10 = 0x72
      then Inr (BigEndian_Uint64 (drop 11 key))
      else Inl (DecodeError 2))"

text \<open>The toy codec with record keys of that shape.\<close>

definition rowDeps :: deps where
  "rowDeps = testDeps\<lparr>decodeRowKey := decodeRowKey_spec\<rparr>"

text \<open>
  Repeated calls of \<^verbatim>\<open>Next\<close>, at most \<open>n\<close> of them: the rows returned before the first
  end-of-stream or error, the executor after the last call, and how the calls ended:
  with an error, with end-of-stream (\<open>Inr True\<close>), or with none of both after \<open>n\<close>
  rows (\<open>Inr False\<close>).
\<close>

primrec tableScan_drain ::
  "deps \<Rightarrow> store \<Rightarrow> tableScanExec \<Rightarrow> nat \<Rightarrow> row list \<times> tableScanExec \<times> (error + bool)" where
  "tableScan_drain d st e 0 = ([], e, Inr False)"
| "tableScan_drain d st e (Suc n) =
     (case tableScan_Next d st e of
        (e', Inl err) \<Rightarrow> ([], e', Inl err)
      | (e', Inr None) \<Rightarrow> ([], e', Inr True)
      | (e', Inr (Some r)) \<Rightarrow>
          (case tableScan_drain d st e' n of (rs, e'', res) \<Rightarrow> (r # rs, e'', res)))"

text \<open>
  A table, number 1, that holds a row for each handle of a list: the stored value of
  handle \<open>h\<close> is the byte \<open>h\<close>, and with no declared columns the decoded row of the
  toy codec is the value at offset 0. \<open>handleScan\<close> scans the handles from 0 up to, and
  without, 200 as one range, ignoring locks.
\<close>

definition handlePairs :: "nat list \<Rightarrow> (bytes \<times> bytes) list" where
  "handlePairs hs = map (\<lambda>h. (RecordKey 1 (of_nat h), [of_nat h])) hs"

definition handleRows :: "nat list \<Rightarrow> row list" where
  "handleRows hs = map (\<lambda>h. [Some [of_nat h], None, None]) hs"

definition handleScan :: "bool \<Rightarrow> tableScanExec" where
  "handleScan desc =
     newTableScan desc [] [] [\<lparr>StartKey = RecordKey 1 0, EndKey = RecordKey 1 200\<rparr>] 5 None True"

lemma tableScan_Next_buffered:
  assumes "ignoreLock e \<or> lockChecked e" and "rowCursor e < length (rows e)"
  shows "tableScan_Next d st e =
           (e\<lparr>rowCursor := rowCursor e + 1\<rparr>, Inr (Some (rows e ! rowCursor e)))"
  using assms
  by (simp add: tableScan_Next_def tableScan_checkRangeLock_done
      tableScan_Next_loop.simps [of d st e] tableScan_getOneRow_def)

lemma tableScan_drain_buffer:
  "ignoreLock e \<or> lockChecked e \<Longrightarrow> rowCursor e + k = length (rows e) \<Longrightarrow>
   tableScan_drain d st e (k + n) =
     (case tableScan_drain d st (e\<lparr>rowCursor := length (rows e)\<rparr>) n of
        (rs, e', res) \<Rightarrow> (drop (rowCursor e) (rows e) @ rs, e', res))"
proof (induction k arbitrary: e)
  case 0
  then have "rowCursor e = length (rows e)" by simp
  then have eq: "e\<lparr>rowCursor := length (rows e)\<rparr> = e" by simp
  have "drop (rowCursor e) (rows e) = []" using \<open>rowCursor e = length (rows e)\<close> by simp
  then show ?case unfolding eq by (simp split: prod.splits)
next
  case (Suc k)
  let ?e1 = "e\<lparr>rowCursor := rowCursor e + 1\<rparr>"
  from Suc.prems have lt: "rowCursor e < length (rows e)" by simp
  have nx: "tableScan_Next d st e = (?e1, Inr (Some (rows e ! rowCursor e)))"
    using Suc.prems(1) lt by (rule tableScan_Next_buffered)
  have ih: "tableScan_drain d st ?e1 (k + n) =
     (case tableScan_drain d st (?e1\<lparr>rowCursor := length (rows ?e1)\<rparr>) n of
        (rs, e', res) \<Rightarrow> (drop (rowCursor ?e1) (rows ?e1) @ rs, e', res))"
    using Suc.prems by (intro Suc.IH) simp_all
  have dr: "drop (rowCursor e) (rows e) = rows e ! rowCursor e # drop (rowCursor e + 1) (rows e)"
    using lt by (simp add: Cons_nth_drop_Suc)
  show ?case using nx ih dr by (simp split: prod.splits)
qed

lemma tableScan_drain_end:
  "tableScan_Next d st e = (e', Inr None) \<Longrightarrow> 0 < n \<Longrightarrow>
     tableScan_drain d st e n = ([], e', Inr True)"
  by (cases n) simp_all

lemma tableScan_drain_row:
  "tableScan_Next d st e = (e', Inr (Some r)) \<Longrightarrow>
     tableScan_drain d st e (Suc n) =
       (case tableScan_drain d st e' n of (rs, e'', res) \<Rightarrow> (r # rs, e'', res))"
  by simp

lemma decodeRowKey_spec_RecordKey:
  "decodeRowKey_spec (RecordKey t h) = Inr (BigEndian_Uint64 (PutUint64 h))"
  by (simp add: decodeRowKey_spec_def RecordKey_def PutUint64_def nth_append)

lemma getRowData_rowDeps_no_columns:
  "val \<noteq> [] \<Longrightarrow> getRowData rowDeps [] cids handle val = Inr [Some val, None, None]"
  by (simp add: getRowData_def rowDeps_def testDeps_def)

lemma tableScan_scanFunc_handlePairs:
  "Columns e = [] \<Longrightarrow>
   tableScan_scanFunc rowDeps e lk (handlePairs hs) =
     (e\<lparr>rows := rows e @ handleRows hs\<rparr>,
      (if hs = [] then lk else Some (RecordKey 1 (of_nat (last hs)))), None)"
proof (induction hs arbitrary: e lk)
  case Nil
  then show ?case by (simp add: handlePairs_def handleRows_def)
next
  case (Cons h hs)
  have dk: "decodeRowKey rowDeps (RecordKey 1 (of_nat h)) = Inr (BigEndian_Uint64 (PutUint64 (of_nat h)))"
    by (simp add: rowDeps_def decodeRowKey_spec_RecordKey)
  let ?e1 = "e\<lparr>rows := rows e @ [[Some [of_nat h], None, None]]\<rparr>"
  have step: "tableScan_scanFunc rowDeps e lk (handlePairs (h # hs)) =
      tableScan_scanFunc rowDeps ?e1 (Some (RecordKey 1 (of_nat h))) (handlePairs hs)"
    using Cons.prems dk by (simp add: handlePairs_def getRowData_rowDeps_no_columns)
  have "Columns ?e1 = []" using Cons.prems by simp
  from Cons.IH [OF this] step show ?case by (simp add: handleRows_def)
qed


definition tableStore :: "nat list \<Rightarrow> store" where
  "tableStore hs = kvStore (handlePairs hs) []"

lemma desc_first_scan:
  "ReverseScan (tableStore [1..<130]) (RecordKey 1 0) (RecordKey 1 200) 128 5
     = (handlePairs (rev [2..<130]), None)"
  by code_simp

lemma desc_second_scan:
  "ReverseScan (tableStore [1..<130]) (RecordKey 1 0) (RecordKey 1 1) 128 5 = ([], None)"
  by code_simp

lemma desc_seek_key:
  "prefixPrev (RecordKey 1 (of_nat (last (rev [2..<130])))) = Some (RecordKey 1 1)"
  by code_simp

lemma desc_range_no_point:
  "\<not> IsPoint \<lparr>StartKey = RecordKey 1 0, EndKey = RecordKey 1 200\<rparr>"
  by code_simp

lemma desc_missing_row:
  "Get (tableStore [1..<130]) (RecordKey 1 1) 5 = Inr [1]
   \<and> inKeyRange (RecordKey 1 1) (RecordKey 1 0) (RecordKey 1 200)
   \<and> [Some [1], None, None] \<notin> set (handleRows (rev [2..<130]))
   \<and> length (handleRows (rev [2..<130])) = 128"
  by code_simp

text \<open>
  Claim C1, at an input where the code fails it. The store holds the rows of the
  handles 1 to 129, all inside the one range of the scan, and the scan is descending.
  Repeated calls of \<^verbatim>\<open>Next\<close> return the rows of the handles 129 down to 2, 128 rows,
  and then end-of-stream: the first \<^verbatim>\<open>ReverseScan\<close> stops at its limit of 128 rows
  with the key of handle 2, the seek key becomes \<open>prefixPrev\<close> of it, the key of
  handle 1, and the second \<^verbatim>\<open>ReverseScan\<close>, over the keys below the seek key, finds
  nothing. The row of handle 1 is in the store and in the range, and is never
  returned.
\<close>

theorem desc_scan_drops_row:
  "tableScan_drain rowDeps (tableStore [1..<130]) (handleScan True) 200
     = (handleRows (rev [2..<130]),
        (handleScan True)\<lparr>rangeCursor := 1,
           calls := [CallReverseScan (RecordKey 1 0) (RecordKey 1 200) 128 5,
                     CallReverseScan (RecordKey 1 0) (RecordKey 1 1) 128 5]\<rparr>,
        Inr True)
   \<and> Get (tableStore [1..<130]) (RecordKey 1 1) 5 = Inr [1]
   \<and> inKeyRange (RecordKey 1 1) (RecordKey 1 0) (RecordKey 1 200)
   \<and> [Some [1], None, None] \<notin> set (handleRows (rev [2..<130]))
   \<and> length (handleRows (rev [2..<130])) = 128"
proof -
  define st where "st = tableStore [1..<130]"
  define hs where "hs = rev [2..<130]"
  define rng where "rng = \<lparr>StartKey = RecordKey 1 0, EndKey = RecordKey 1 200\<rparr>"
  define e0 where "e0 = handleScan True"
  define c1 where "c1 = CallReverseScan (RecordKey 1 0) (RecordKey 1 200) 128 5"
  define c2 where "c2 = CallReverseScan (RecordKey 1 0) (RecordKey 1 1) 128 5"
  define e1 where "e1 = e0\<lparr>seekKey := Some (RecordKey 1 1), calls := [c1], rows := handleRows hs\<rparr>"
  define e2 where "e2 = e0\<lparr>rangeCursor := 1, calls := [c1, c2]\<rparr>"
  have s1: "ReverseScan st (RecordKey 1 0) (RecordKey 1 200) 128 5 = (handlePairs hs, None)"
    unfolding st_def hs_def by (rule desc_first_scan)
  have s2: "ReverseScan st (RecordKey 1 0) (RecordKey 1 1) 128 5 = ([], None)"
    unfolding st_def by (rule desc_second_scan)
  have sk: "prefixPrev (RecordKey 1 (of_nat (last hs))) = Some (RecordKey 1 1)"
    unfolding hs_def by (rule desc_seek_key)
  have np: "\<not> IsPoint rng" unfolding rng_def by (rule desc_range_no_point)
  have len: "length (handleRows hs) = 128" unfolding hs_def using desc_missing_row by blast
  then have hne: "hs \<noteq> []" by (auto simp: handleRows_def)
  have e0: "Desc e0" "kvRanges e0 = [rng]" "startTS e0 = 5" "seekKey e0 = None"
    "ignoreLock e0" "rowCursor e0 = 0" "rows e0 = []" "calls e0 = []" "Columns e0 = []"
    "rangeCursor e0 = 0"
    by (simp_all add: e0_def handleScan_def newTableScan_def rng_def)
  have reset0: "e0\<lparr>rowCursor := 0, rows := []\<rparr> = e0"
    using e0(6) e0(7) by (simp add: e0_def handleScan_def newTableScan_def)
  have fr1: "tableScan_fillRowsFromRange rowDeps st e0 rng = (e1, None)"
    using e0 s1 sk hne
    by (simp add: tableScan_fillRowsFromRange_def rng_def scanLimit_def
        tableScan_scanFunc_handlePairs e1_def c1_def)
  have rows1: "rows e1 = handleRows hs" "rows e1 \<noteq> []" "rowCursor e1 = 0"
    "ignoreLock e1" "Desc e1" "kvRanges e1 = [rng]" "startTS e1 = 5" "rangeCursor e1 = 0"
    "Columns e1 = []" "seekKey e1 = Some (RecordKey 1 1)" "calls e1 = [c1]"
    using e0 len by (auto simp: e1_def)
  have fill1: "tableScan_fillRows rowDeps st e0 = (e1, None)"
    using e0 np fr1 rows1(2)
    by (subst tableScan_fillRows.simps) (simp add: tableScan_fillRows_body_def)
  have nl0: "tableScan_Next_loop rowDeps st e0 = tableScan_Next_loop rowDeps st e1"
  proof -
    have "\<not> rowCursor e0 < length (rows e0)" using e0 by simp
    from tableScan_Next_loop_exhausted [OF this, of rowDeps st]
    show ?thesis unfolding reset0 fill1 using rows1(2) by simp
  qed
  have nl1: "tableScan_Next_loop rowDeps st e1
      = (e1\<lparr>rowCursor := 1\<rparr>, Inr (Some (handleRows hs ! 0)))"
    using rows1 len
    by (subst tableScan_Next_loop.simps) (simp add: tableScan_getOneRow_def)
  have next1: "tableScan_Next rowDeps st e0
      = (e1\<lparr>rowCursor := 1\<rparr>, Inr (Some (handleRows hs ! 0)))"
    using e0(5) nl0 nl1 by (simp add: tableScan_Next_def tableScan_checkRangeLock_done)
  let ?e1' = "e1\<lparr>rowCursor := 1\<rparr>"
  let ?e1x = "e1\<lparr>rowCursor := 128\<rparr>"
  have buf: "tableScan_drain rowDeps st ?e1' (127 + 72) =
     (case tableScan_drain rowDeps st (?e1'\<lparr>rowCursor := length (rows ?e1')\<rparr>) 72 of
        (rs, e', res) \<Rightarrow> (drop (rowCursor ?e1') (rows ?e1') @ rs, e', res))"
    using rows1 len by (intro tableScan_drain_buffer) simp_all
  have e1x: "?e1'\<lparr>rowCursor := length (rows ?e1')\<rparr> = ?e1x" using rows1 len by simp
  have fr2: "tableScan_fillRowsFromRange rowDeps st (?e1x\<lparr>rowCursor := 0, rows := []\<rparr>) rng
      = (e1\<lparr>rowCursor := 0, rows := [], calls := [c1, c2]\<rparr>, None)"
    using rows1 s2
    by (simp add: tableScan_fillRowsFromRange_def rng_def scanLimit_def c2_def Let_def)
  have nr: "tableScan_nextRange (e1\<lparr>rowCursor := 0, rows := [], calls := [c1, c2]\<rparr>) = e2"
    using e0 by (simp add: tableScan_nextRange_def e1_def e2_def)
  have e2: "rangeCursor e2 = 1" "kvRanges e2 = [rng]" "rows e2 = []"
    using e0 by (simp_all add: e2_def)
  have fill2: "tableScan_fillRows rowDeps st (?e1x\<lparr>rowCursor := 0, rows := []\<rparr>) = (e2, None)"
    using rows1 np fr2 nr e2
    by (subst tableScan_fillRows.simps)
       (simp add: tableScan_fillRows_body_def tableScan_fillRows.simps [of rowDeps st e2])
  have next2: "tableScan_Next rowDeps st ?e1x = (e2, Inr None)"
  proof -
    have ex: "\<not> rowCursor ?e1x < length (rows ?e1x)" using rows1 len by simp
    have "tableScan_Next_loop rowDeps st ?e1x = (e2, Inr None)"
      using tableScan_Next_loop_exhausted [OF ex, of rowDeps st] e2(3)
      unfolding fill2 by simp
    moreover have "ignoreLock ?e1x \<or> lockChecked ?e1x" using rows1 by simp
    ultimately show ?thesis by (simp add: tableScan_Next_def tableScan_checkRangeLock_done)
  qed
  have tail: "tableScan_drain rowDeps st ?e1x 72 = ([], e2, Inr True)"
    using next2 by (rule tableScan_drain_end) simp
  have d0: "handleRows hs = handleRows hs ! 0 # drop 1 (handleRows hs)"
    using len by (cases "handleRows hs") simp_all
  have mid: "tableScan_drain rowDeps st ?e1' (127 + 72) = (drop 1 (handleRows hs), e2, Inr True)"
    unfolding buf e1x tail using rows1 by simp
  have "tableScan_drain rowDeps st e0 (Suc (127 + 72)) = (handleRows hs, e2, Inr True)"
    unfolding tableScan_drain_row [OF next1] mid using d0 by simp
  then have "tableScan_drain rowDeps st e0 200 = (handleRows hs, e2, Inr True)" by simp
  then show ?thesis
    using desc_missing_row
    by (simp add: st_def hs_def e0_def e2_def c1_def c2_def)
qed

end

